theory Spec2Isabelle
  imports Complex_Main
begin

section \<open>Shared data\<close>

text \<open>
  JavaScript objects of the shape \<open>{x, y, z}\<close>. The planner works on integer cells
  (\<open>int vec3\<close>), the warehouse and the robot on continuous positions (\<open>real vec3\<close>).
  JavaScript numbers are modelled by the mathematical integers and reals.
\<close>

datatype 'a vec3 = Vec3 (vx: 'a) (vy: 'a) (vz: 'a)

section \<open>Detection models (qina-algorithm.js)\<close>

text \<open>A warehouse box as the detectors read it: position, rotation in degrees, scale.\<close>

record box =
  box_position :: "real vec3"
  box_rotation :: real
  box_scale :: real

record detection =
  det_position :: "real vec3"
  confidence :: real

text \<open>The fields of class \<open>AIModel\<close>, with the \<open>threshold\<close> field of its two subclasses.\<close>

record ai_model =
  name :: string
  detections :: "detection list"
  processTime :: real
  missRate :: real
  totalDetections :: int
  missedDetections :: int
  threshold :: real

text \<open>What \<open>detect\<close> returns: \<open>{detections, processTime, missRate}\<close>.\<close>

record detect_result =
  res_detections :: "detection list"
  res_processTime :: real
  res_missRate :: real

definition AIModel :: "string \<Rightarrow> real \<Rightarrow> ai_model" where
  "AIModel nm thr =
     \<lparr>name = nm, detections = [], processTime = 0, missRate = 0,
      totalDetections = 0, missedDetections = 0, threshold = thr\<rparr>"

definition BaselineModel :: ai_model where
  "BaselineModel = AIModel ''Baseline'' 0.5"

definition QINAModel :: ai_model where
  "QINAModel = AIModel ''QINA'' 0.3"

definition calculateMissRate :: "int \<Rightarrow> int \<Rightarrow> ai_model \<Rightarrow> ai_model" where
  "calculateMissRate detected total' m =
     (let m1 = m\<lparr>totalDetections := totalDetections m + total'\<rparr>;
          m2 = m1\<lparr>missedDetections := missedDetections m1 + (total' - detected)\<rparr>
      in m2\<lparr>missRate :=
            (if totalDetections m2 > 0
             then (real_of_int (missedDetections m2) / real_of_int (totalDetections m2)) * 100
             else 0)\<rparr>)"

definition reset_model :: "ai_model \<Rightarrow> ai_model" where
  "reset_model m =
     m\<lparr>detections := [], processTime := 0, totalDetections := 0,
       missedDetections := 0, missRate := 0\<rparr>"

text \<open>
  \<open>Math.random()\<close> is a global generator: it is modelled by the stream \<open>rnd\<close> of the
  values it is going to return and a cursor \<open>i\<close> into that stream, which every draw advances.
  The \<open>||\<close> of the source short-circuits, so the second draw of an entity is taken only
  when the probability reached the threshold.
\<close>

type_synonym random_source = "nat \<Rightarrow> real"

definition Baseline_probability :: "box \<Rightarrow> real \<Rightarrow> real" where
  "Baseline_probability b u =
     1.0 - \<bar>sin (box_rotation b * pi / 90)\<bar> * 0.5 - \<bar>box_scale b - 1.0\<bar> * 0.5 - u * 0.2"

definition QINA_probability :: "box \<Rightarrow> real \<Rightarrow> real" where
  "QINA_probability b u =
     1.0 - \<bar>sin (box_rotation b * pi / 90)\<bar> * 0.2 - \<bar>box_scale b - 1.0\<bar> * 0.2 - u * 0.1"

text \<open>One iteration of the loop body: \<open>None\<close> is the \<open>continue\<close> branch (a miss).\<close>

definition Baseline_entity :: "real \<Rightarrow> random_source \<Rightarrow> nat \<Rightarrow> box \<Rightarrow> detection option \<times> nat" where
  "Baseline_entity thr rnd i b =
     (let probability = Baseline_probability b (rnd i) in
      if probability < thr then (None, i + 1)
      else if rnd (i + 1) < 0.1 then (None, i + 2)
      else (Some \<lparr>det_position = box_position b, confidence = probability\<rparr>, i + 2))"

definition QINA_entity :: "real \<Rightarrow> random_source \<Rightarrow> nat \<Rightarrow> box \<Rightarrow> detection option \<times> nat" where
  "QINA_entity thr rnd i b =
     (let probability = QINA_probability b (rnd i) in
      if probability < thr then (None, i + 1)
      else if rnd (i + 1) < 0.02 then (None, i + 2)
      else (Some \<lparr>det_position = box_position b, confidence = probability\<rparr>, i + 2))"

text \<open>
  The \<open>for (const box of boxes)\<close> loop: it carries the detection list, the counter
  \<open>detected\<close> and the cursor of the random source.
\<close>

fun scan_boxes ::
  "(nat \<Rightarrow> box \<Rightarrow> detection option \<times> nat) \<Rightarrow> box list \<Rightarrow>
   detection list \<times> int \<times> nat \<Rightarrow> detection list \<times> int \<times> nat" where
  "scan_boxes entity [] acc = acc"
| "scan_boxes entity (b # bs) (dets, detected, i) =
     (case entity i b of
        (None, i') \<Rightarrow> scan_boxes entity bs (dets, detected, i')
      | (Some d, i') \<Rightarrow> scan_boxes entity bs (dets @ [d], detected + 1, i'))"

type_synonym visual_data = "real list list list"

definition Baseline_runDetection ::
  "random_source \<Rightarrow> nat \<Rightarrow> visual_data \<Rightarrow> box list \<Rightarrow> ai_model \<Rightarrow> ai_model \<times> nat" where
  "Baseline_runDetection rnd i visualData boxes m =
     (case scan_boxes (Baseline_entity (threshold m) rnd) boxes ([], 0, i) of
        (dets, detected, i') \<Rightarrow>
          (calculateMissRate detected (int (length boxes)) (m\<lparr>detections := dets\<rparr>), i'))"

definition applyTensorNetwork :: "visual_data \<Rightarrow> visual_data" where
  "applyTensorNetwork visualData = visualData"

definition QINA_runDetection ::
  "random_source \<Rightarrow> nat \<Rightarrow> visual_data \<Rightarrow> box list \<Rightarrow> ai_model \<Rightarrow> ai_model \<times> nat" where
  "QINA_runDetection rnd i visualData boxes m =
     (let processedData = applyTensorNetwork visualData in
      case scan_boxes (QINA_entity (threshold m) rnd) boxes ([], 0, i) of
        (dets, detected, i') \<Rightarrow>
          (let m1 = calculateMissRate detected (int (length boxes)) (m\<lparr>detections := dets\<rparr>)
           in (m1\<lparr>processTime := processTime m1 * 0.85\<rparr>, i')))"

text \<open>
  The template method \<open>AIModel.detect\<close>. The two readings of \<open>performance.now()\<close>
  are the inputs \<open>startTime\<close> and \<open>endTime\<close> (milliseconds); \<open>runDetection\<close> is the
  subclass's \<open>_runDetection\<close>.
\<close>

definition detect ::
  "(random_source \<Rightarrow> nat \<Rightarrow> visual_data \<Rightarrow> box list \<Rightarrow> ai_model \<Rightarrow> ai_model \<times> nat) \<Rightarrow>
   real \<Rightarrow> real \<Rightarrow> random_source \<Rightarrow> nat \<Rightarrow> visual_data \<Rightarrow> box list \<Rightarrow> ai_model \<Rightarrow>
   detect_result \<times> ai_model \<times> nat" where
  "detect runDetection startTime endTime rnd i visualData boxes m =
     (case runDetection rnd i visualData boxes m of
        (m1, i') \<Rightarrow>
          (let m2 = m1\<lparr>processTime := (endTime - startTime) / 1000\<rparr>
           in (\<lparr>res_detections = detections m2, res_processTime = processTime m2,
                res_missRate = missRate m2\<rparr>, m2, i')))"

definition Baseline_detect ::
  "real \<Rightarrow> real \<Rightarrow> random_source \<Rightarrow> nat \<Rightarrow> visual_data \<Rightarrow> box list \<Rightarrow> ai_model \<Rightarrow>
   detect_result \<times> ai_model \<times> nat" where
  "Baseline_detect = detect Baseline_runDetection"

definition QINA_detect ::
  "real \<Rightarrow> real \<Rightarrow> random_source \<Rightarrow> nat \<Rightarrow> visual_data \<Rightarrow> box list \<Rightarrow> ai_model \<Rightarrow>
   detect_result \<times> ai_model \<times> nat" where
  "QINA_detect = detect QINA_runDetection"

text \<open>
  A sequence of evaluation passes, as the driver issues them: each pass is one call of
  \<open>detect\<close> with its clock readings, its visual data and its boxes; the model and the
  cursor of the random source are carried from one pass to the next.
\<close>

type_synonym pass = "real \<times> real \<times> visual_data \<times> box list"

fun run_passes ::
  "(random_source \<Rightarrow> nat \<Rightarrow> visual_data \<Rightarrow> box list \<Rightarrow> ai_model \<Rightarrow> ai_model \<times> nat) \<Rightarrow>
   random_source \<Rightarrow> pass list \<Rightarrow> ai_model \<times> nat \<Rightarrow> detect_result list \<times> ai_model \<times> nat" where
  "run_passes runDetection rnd [] (m, i) = ([], m, i)"
| "run_passes runDetection rnd ((startTime, endTime, visualData, boxes) # ps) (m, i) =
     (case detect runDetection startTime endTime rnd i visualData boxes m of
        (r, m1, i1) \<Rightarrow>
          (case run_passes runDetection rnd ps (m1, i1) of
             (rs, m2, i2) \<Rightarrow> (r # rs, m2, i2)))"

text \<open>The sums of the specification: entities evaluated and entities missed over the passes.\<close>

definition evaluated_sum :: "pass list \<Rightarrow> int" where
  "evaluated_sum ps = sum_list (map (\<lambda>(startTime, endTime, visualData, boxes). int (length boxes)) ps)"

definition missed_sum :: "pass list \<Rightarrow> detect_result list \<Rightarrow> int" where
  "missed_sum ps rs =
     sum_list (map2 (\<lambda>(startTime, endTime, visualData, boxes) r.
                 int (length boxes) - int (length (res_detections r))) ps rs)"

text \<open>The cumulative ratio that \<open>calculateMissRate\<close> stores in \<open>missRate\<close>.\<close>

definition ratio :: "ai_model \<Rightarrow> real" where
  "ratio m = (if totalDetections m > 0
              then (real_of_int (missedDetections m) / real_of_int (totalDetections m)) * 100
              else 0)"

text \<open>
  A run of two Baseline passes on concrete boxes: the first pass misses the oversized box
  and detects the aligned one, the second detects the aligned box again, so the model ends
  with one miss in three evaluations.
\<close>

definition demo_passes :: "pass list" where
  "demo_passes =
     [(0, 1, [], [\<lparr>box_position = Vec3 8 0 8, box_rotation = 0, box_scale = 1\<rparr>,
                  \<lparr>box_position = Vec3 5 0 3, box_rotation = 0, box_scale = 3\<rparr>]),
      (1, 2, [], [\<lparr>box_position = Vec3 8 0 8, box_rotation = 0, box_scale = 1\<rparr>])]"

section \<open>Robot (robot.js)\<close>

text \<open>
  The fields of class \<open>Robot\<close> that the motion controller reads and writes. The mesh and
  the scene belong to the renderer and are left out; \<open>pathMarkers\<close> keeps, for every
  marker mesh, the path point it marks.
\<close>

record robot =
  position :: "real vec3"
  targetPosition :: "real vec3 option"
  path :: "real vec3 list"
  moving :: bool
  speed :: real
  rotationSpeed :: real
  currentRotation :: real
  targetRotation :: real
  pathMarkers :: "real vec3 list"

definition Robot :: "real \<Rightarrow> real \<Rightarrow> real \<Rightarrow> robot" where
  "Robot x y z =
     \<lparr>position = Vec3 x y z, targetPosition = None, path = [], moving = False,
      speed = 1.0, rotationSpeed = 5.0, currentRotation = 0, targetRotation = 0,
      pathMarkers = []\<rparr>"

text \<open>
  \<open>Math.atan2(y, x)\<close> on the reals: the angle of the point \<open>(x, y)\<close> in \<open>(-\<pi>, \<pi>]\<close>, and 0
  at the origin (the differences of the controller are never a negative zero).
\<close>

definition atan2 :: "real \<Rightarrow> real \<Rightarrow> real" where
  "atan2 y x =
     (if x > 0 then arctan (y / x)
      else if x < 0 \<and> y \<ge> 0 then arctan (y / x) + pi
      else if x < 0 then arctan (y / x) - pi
      else if y > 0 then pi / 2
      else if y < 0 then - pi / 2
      else 0)"

text \<open>
  The two loops that normalize the rotation difference:
  \<open>while (d > Math.PI) d -= 2 * Math.PI\<close> and \<open>while (d < -Math.PI) d += 2 * Math.PI\<close>.
  Both terminate on every real number.
\<close>

function normalize_down :: "real \<Rightarrow> real" where
  "normalize_down d = (if d > pi then normalize_down (d - 2 * pi) else d)"
  by pat_completeness auto
termination
proof (relation "measure (\<lambda>d. nat \<lceil>(d - pi) / (2 * pi)\<rceil>)")
  show "wf (measure (\<lambda>d. nat \<lceil>(d - pi) / (2 * pi)\<rceil>))" by simp
next
  fix d :: real
  assume gt: "pi < d"
  have eq: "(d - 2 * pi - pi) / (2 * pi) = (d - pi) / (2 * pi) - 1"
    by (simp add: field_simps)
  have pos: "0 < (d - pi) / (2 * pi)" using gt by simp
  then have cpos: "0 < \<lceil>(d - pi) / (2 * pi)\<rceil>" by simp
  have c: "\<lceil>(d - 2 * pi - pi) / (2 * pi)\<rceil> = \<lceil>(d - pi) / (2 * pi)\<rceil> - 1"
    unfolding eq by (rule ceiling_diff_one)
  have "nat \<lceil>(d - 2 * pi - pi) / (2 * pi)\<rceil> < nat \<lceil>(d - pi) / (2 * pi)\<rceil>"
    unfolding c using cpos by linarith
  then show "(d - 2 * pi, d) \<in> measure (\<lambda>d. nat \<lceil>(d - pi) / (2 * pi)\<rceil>)"
    unfolding in_measure .
qed

function normalize_up :: "real \<Rightarrow> real" where
  "normalize_up d = (if d < - pi then normalize_up (d + 2 * pi) else d)"
  by pat_completeness auto
termination
proof (relation "measure (\<lambda>d. nat \<lceil>(- pi - d) / (2 * pi)\<rceil>)")
  show "wf (measure (\<lambda>d. nat \<lceil>(- pi - d) / (2 * pi)\<rceil>))" by simp
next
  fix d :: real
  assume lt: "d < - pi"
  have eq: "(- pi - (d + 2 * pi)) / (2 * pi) = (- pi - d) / (2 * pi) - 1"
    by (simp add: field_simps)
  have pos: "0 < (- pi - d) / (2 * pi)" using lt by simp
  then have cpos: "0 < \<lceil>(- pi - d) / (2 * pi)\<rceil>" by simp
  have c: "\<lceil>(- pi - (d + 2 * pi)) / (2 * pi)\<rceil> = \<lceil>(- pi - d) / (2 * pi)\<rceil> - 1"
    unfolding eq by (rule ceiling_diff_one)
  have "nat \<lceil>(- pi - (d + 2 * pi)) / (2 * pi)\<rceil> < nat \<lceil>(- pi - d) / (2 * pi)\<rceil>"
    unfolding c using cpos by linarith
  then show "(d + 2 * pi, d) \<in> measure (\<lambda>d. nat \<lceil>(- pi - d) / (2 * pi)\<rceil>)"
    unfolding in_measure .
qed

declare normalize_down.simps [simp del]
declare normalize_up.simps [simp del]

definition normalize :: "real \<Rightarrow> real" where
  "normalize rotDiff = normalize_up (normalize_down rotDiff)"

text \<open>
  \<open>Robot.update\<close>. The division \<open>step / distance\<close> is reached only when
  \<open>distance > step\<close>, so the divisor is positive whenever \<open>deltaTime\<close> is not negative.
\<close>

definition update :: "real \<Rightarrow> robot \<Rightarrow> robot" where
  "update deltaTime r =
     (if moving r \<and> length (path r) > 0 then
        let nextPoint = hd (path r);
            dx = vx nextPoint - vx (position r);
            dz = vz nextPoint - vz (position r);
            distance = sqrt (dx * dx + dz * dz);
            r1 = r\<lparr>targetRotation := atan2 dz dx\<rparr>;
            rotDiff = targetRotation r1 - currentRotation r1;
            normalizedRotDiff = normalize rotDiff;
            rotStep = rotationSpeed r1 * deltaTime;
            r2 = (if \<bar>normalizedRotDiff\<bar> > rotStep
                  then r1\<lparr>currentRotation := currentRotation r1 + sgn normalizedRotDiff * rotStep\<rparr>
                  else r1\<lparr>currentRotation := targetRotation r1\<rparr>)
        in if \<bar>normalizedRotDiff\<bar> < 0.1 then
             let step = speed r2 * deltaTime in
             if distance \<le> step then
               let r3 = r2\<lparr>position := nextPoint\<rparr>;
                   r4 = r3\<lparr>path := tl (path r3)\<rparr>;
                   r5 = (if length (pathMarkers r4) > 0
                         then r4\<lparr>pathMarkers := tl (pathMarkers r4)\<rparr> else r4)
               in if length (path r5) = 0 then r5\<lparr>moving := False, pathMarkers := []\<rparr> else r5
             else
               let moveRatio = step / distance in
               r2\<lparr>position := Vec3 (vx (position r2) + dx * moveRatio)
                                  (vy (position r2))
                                  (vz (position r2) + dz * moveRatio)\<rparr>
           else r2
      else r)"

definition reset :: "real \<Rightarrow> real \<Rightarrow> real \<Rightarrow> robot \<Rightarrow> robot" where
  "reset x y z r =
     r\<lparr>position := Vec3 x y z, targetPosition := None, path := [], moving := False,
       currentRotation := 0, targetRotation := 0, pathMarkers := []\<rparr>"


text \<open>
  The magnitude of the normalized heading error, as \<open>update\<close> computes it from a target
  heading and a current heading.
\<close>

definition heading_error :: "real \<Rightarrow> real \<Rightarrow> real" where
  "heading_error target current = \<bar>normalize (target - current)\<bar>"






text \<open>Robots used as concrete inputs: one facing +x with a waypoint on the z axis, one with
  three waypoints straight ahead.\<close>

definition demo_robot_turn :: robot where
  "demo_robot_turn = (Robot 0 0 0)\<lparr>path := [Vec3 0 0 1], moving := True\<rparr>"


section \<open>Planner (pathfinding.js)\<close>

text \<open>
  The occupancy grid is the nested array that \<open>createEmptyGrid\<close> builds: \<open>grid[x][y][z]\<close>
  is 1 for an occupied cell and 0 otherwise. Cells are \<open>int vec3\<close>.
\<close>

type_synonym grid = "int list list list"

definition createEmptyGrid :: "nat \<Rightarrow> grid" where
  "createEmptyGrid gridSize = replicate gridSize (replicate gridSize (replicate gridSize 0))"

text \<open>
  The read \<open>this.grid[newX][newY][newZ]\<close>, made after the bounds check against
  \<open>gridSize = grid.length\<close>, so \<open>grid[newX]\<close> exists. On a grid that is not a cube,
  \<open>grid[newX][newY]\<close> can be \<open>undefined\<close>, and indexing it throws a TypeError; a missing
  last index reads \<open>undefined\<close> (here \<open>None\<close>), which is not 1.
\<close>

datatype error = TypeError

definition grid_cell :: "grid \<Rightarrow> int \<Rightarrow> int \<Rightarrow> int \<Rightarrow> error + int option" where
  "grid_cell grid x y z =
     (let plane = grid ! nat x in
      if nat y < length plane then
        (let row = plane ! nat y in
         Inr (if nat z < length row then Some (row ! nat z) else None))
      else Inl TypeError)"

text \<open>A planner node: coordinates, \<open>g\<close>, \<open>h\<close>, \<open>f\<close> and the parent reference. Parents are
  always nodes already taken off the open list, which are never changed again, so a node
  holds its parent by value.\<close>

datatype node =
  Node (node_x: int) (node_y: int) (node_z: int) (node_g: int) (node_h: int) (node_f: int)
       (node_parent: "node option")

definition node_pos :: "node \<Rightarrow> int vec3" where
  "node_pos n = Vec3 (node_x n) (node_y n) (node_z n)"

definition heuristic :: "int vec3 \<Rightarrow> int vec3 \<Rightarrow> int" where
  "heuristic a b = \<bar>vx a - vx b\<bar> + \<bar>vy a - vy b\<bar> + \<bar>vz a - vz b\<bar>"

text \<open>The four active entries of \<open>directions\<close> (the two y moves are commented out).\<close>

definition directions :: "(int \<times> int \<times> int) list" where
  "directions = [(1, 0, 0), (-1, 0, 0), (0, 0, 1), (0, 0, -1)]"

fun neighbors_loop ::
  "grid \<Rightarrow> int \<Rightarrow> int \<Rightarrow> int \<Rightarrow> (int \<times> int \<times> int) list \<Rightarrow> int vec3 list \<Rightarrow>
   error + int vec3 list" where
  "neighbors_loop grid x y z [] neighbors = Inr neighbors"
| "neighbors_loop grid x y z ((dx, dy, dz) # dirs) neighbors =
     (let newX = x + dx; newY = y + dy; newZ = z + dz; gridSize = int (length grid) in
      if newX \<ge> 0 \<and> newX < gridSize \<and> newY \<ge> 0 \<and> newY < gridSize \<and>
         newZ \<ge> 0 \<and> newZ < gridSize
      then (case grid_cell grid newX newY newZ of
              Inl e \<Rightarrow> Inl e
            | Inr c \<Rightarrow>
                if c \<noteq> Some 1
                then neighbors_loop grid x y z dirs (neighbors @ [Vec3 newX newY newZ])
                else neighbors_loop grid x y z dirs neighbors)
      else neighbors_loop grid x y z dirs neighbors)"

definition getNeighbors :: "grid \<Rightarrow> int \<Rightarrow> int \<Rightarrow> int \<Rightarrow> error + int vec3 list" where
  "getNeighbors grid x y z = neighbors_loop grid x y z directions []"

text \<open>\<open>reconstructPath\<close>: walk the parent references, putting each node in front.\<close>

fun reconstructPath_loop :: "node \<Rightarrow> int vec3 list \<Rightarrow> int vec3 list" where
  "reconstructPath_loop (Node x y z g h f None) path' = path'"
| "reconstructPath_loop (Node x y z g h f (Some p)) path' =
     reconstructPath_loop p (Vec3 x y z # path')"

definition reconstructPath :: "node \<Rightarrow> int vec3 list" where
  "reconstructPath n = reconstructPath_loop n []"

text \<open>
  The update in place of the open node that \<open>openList.find\<close> returned: the first node of
  the list at that cell gets the new \<open>g\<close>, \<open>f\<close> and parent.
\<close>

fun relax_first :: "int vec3 \<Rightarrow> int \<Rightarrow> node \<Rightarrow> node list \<Rightarrow> node list" where
  "relax_first c gScore current [] = []"
| "relax_first c gScore current (n # ns) =
     (if node_pos n = c
      then Node (node_x n) (node_y n) (node_z n) gScore (node_h n) (gScore + node_h n)
             (Some current) # ns
      else n # relax_first c gScore current ns)"

text \<open>The \<open>for (const neighbor of neighbors)\<close> loop of \<open>findPath\<close>.\<close>

fun visit_neighbors ::
  "node \<Rightarrow> int vec3 \<Rightarrow> int vec3 set \<Rightarrow> int vec3 list \<Rightarrow> node list \<Rightarrow> node list" where
  "visit_neighbors current endPos closedList [] openList = openList"
| "visit_neighbors current endPos closedList (neighbor # ns) openList =
     (if neighbor \<in> closedList then visit_neighbors current endPos closedList ns openList
      else
        let gScore = node_g current + 1 in
        case find (\<lambda>n. node_x n = vx neighbor \<and> node_y n = vy neighbor \<and>
                        node_z n = vz neighbor) openList of
          None \<Rightarrow>
            visit_neighbors current endPos closedList ns
              (openList @ [Node (vx neighbor) (vy neighbor) (vz neighbor) gScore
                             (heuristic neighbor endPos) (gScore + heuristic neighbor endPos)
                             (Some current)])
        | Some openNode \<Rightarrow>
            if gScore < node_g openNode
            then visit_neighbors current endPos closedList ns
                   (relax_first neighbor gScore current openList)
            else visit_neighbors current endPos closedList ns openList)"

text \<open>The cells inside the bounds that \<open>getNeighbors\<close> checks.\<close>

definition cells :: "grid \<Rightarrow> int vec3 set" where
  "cells grid =
     (\<lambda>(x, y, z). Vec3 x y z) `
       ({0 ..< int (length grid)} \<times> {0 ..< int (length grid)} \<times> {0 ..< int (length grid)})"

definition unvisited :: "grid \<Rightarrow> node list \<Rightarrow> int vec3 set \<Rightarrow> int vec3 set" where
  "unvisited grid openList closedList = cells grid - closedList - node_pos ` set openList"

text \<open>
  The \<open>while (openList.length > 0)\<close> loop. \<open>Array.prototype.sort\<close> is stable, as is
  \<open>sort_key\<close>; \<open>shift\<close> takes the first node of the sorted list. The closed list is the set
  of the keys \<open>"x,y,z"\<close>, one for each cell.
\<close>

function search :: "grid \<Rightarrow> int vec3 \<Rightarrow> node list \<Rightarrow> int vec3 set \<Rightarrow> error + int vec3 list" where
  "search grid endPos openList closedList =
     (if length openList > 0 then
        let sorted = sort_key node_f openList;
            current = hd sorted;
            openList1 = tl sorted
        in if node_x current = vx endPos \<and> node_y current = vy endPos \<and>
              node_z current = vz endPos
           then Inr (reconstructPath current)
           else
             let closedList1 = insert (node_pos current) closedList in
             case getNeighbors grid (node_x current) (node_y current) (node_z current) of
               Inl e \<Rightarrow> Inl e
             | Inr neighbors \<Rightarrow>
                 search grid endPos
                   (visit_neighbors current endPos closedList1 neighbors openList1) closedList1
      else Inr [])"
  by pat_completeness auto

text \<open>
  The loop terminates: every iteration takes one node off the open list, and a node is
  added only for a cell inside the bounds that is neither closed nor on the open list.
\<close>

lemma finite_cells: "finite (cells grid)"
  by (simp add: cells_def)

lemma cells_iff:
  "Vec3 x y z \<in> cells grid \<longleftrightarrow>
     0 \<le> x \<and> x < int (length grid) \<and> 0 \<le> y \<and> y < int (length grid) \<and>
     0 \<le> z \<and> z < int (length grid)"
  unfolding cells_def by (auto simp: image_iff)

lemma neighbors_loop_cells:
  "neighbors_loop grid x y z dirs acc = Inr ns \<Longrightarrow> set acc \<subseteq> cells grid \<Longrightarrow>
   set ns \<subseteq> cells grid"
proof (induction dirs arbitrary: acc)
  case Nil
  then show ?case by simp
next
  case (Cons d dirs)
  obtain dx dy dz where d: "d = (dx, dy, dz)" by (cases d) auto
  show ?case
  proof (cases "x + dx \<ge> 0 \<and> x + dx < int (length grid) \<and> y + dy \<ge> 0 \<and>
                y + dy < int (length grid) \<and> z + dz \<ge> 0 \<and> z + dz < int (length grid)")
    case True
    then have incell: "Vec3 (x + dx) (y + dy) (z + dz) \<in> cells grid"
      by (simp add: cells_iff)
    show ?thesis
    proof (cases "grid_cell grid (x + dx) (y + dy) (z + dz)")
      case (Inl e)
      with Cons.prems True d show ?thesis by (simp add: Let_def)
    next
      case (Inr c)
      show ?thesis
      proof (cases "c \<noteq> Some 1")
        case True
        with Cons.prems \<open>_ \<and> _\<close> d Inr
        have "neighbors_loop grid x y z dirs (acc @ [Vec3 (x + dx) (y + dy) (z + dz)]) = Inr ns"
          by (simp add: Let_def)
        then show ?thesis using Cons.IH Cons.prems(2) incell by simp
      next
        case False
        with Cons.prems \<open>_ \<and> _\<close> d Inr
        have "neighbors_loop grid x y z dirs acc = Inr ns" by (simp add: Let_def)
        then show ?thesis using Cons.IH Cons.prems(2) by simp
      qed
    qed
  next
    case False
    with Cons.prems d have "neighbors_loop grid x y z dirs acc = Inr ns"
      by (simp add: Let_def)
    then show ?thesis using Cons.IH Cons.prems(2) by simp
  qed
qed

lemma getNeighbors_cells: "getNeighbors grid x y z = Inr ns \<Longrightarrow> set ns \<subseteq> cells grid"
  unfolding getNeighbors_def by (erule neighbors_loop_cells) simp

lemma length_relax_first [simp]: "length (relax_first c gs cur ns) = length ns"
  by (induction ns) simp_all

lemma pos_relax_first [simp]:
  "map node_pos (relax_first c gs cur ns) = map node_pos ns"
  by (induction ns) (simp_all add: node_pos_def)

lemma pos_set_relax_first [simp]:
  "node_pos ` set (relax_first c gs cur ns) = node_pos ` set ns"
  using pos_relax_first[of c gs cur ns] by (metis set_map)

lemma find_pos_None:
  "find (\<lambda>n. node_x n = vx c \<and> node_y n = vy c \<and> node_z n = vz c) ns = None
   \<longleftrightarrow> c \<notin> node_pos ` set ns"
proof -
  have "\<And>n. (node_x n = vx c \<and> node_y n = vy c \<and> node_z n = vz c) = (node_pos n = c)"
    by (cases c) (auto simp: node_pos_def)
  then show ?thesis by (auto simp: find_None_iff)
qed

lemma visit_neighbors_measure:
  "set ns \<subseteq> cells grid \<Longrightarrow>
   2 * card (unvisited grid (visit_neighbors cur e cl ns ol) cl)
     + length (visit_neighbors cur e cl ns ol)
   \<le> 2 * card (unvisited grid ol cl) + length ol"
proof (induction ns arbitrary: ol)
  case Nil
  then show ?case by simp
next
  case (Cons n ns)
  then have ns: "set ns \<subseteq> cells grid" and n: "n \<in> cells grid" by simp_all
  let ?P = "\<lambda>m. node_x m = vx n \<and> node_y m = vy n \<and> node_z m = vz n"
  show ?case
  proof (cases "n \<in> cl")
    case True
    then show ?thesis using Cons.IH[OF ns] by simp
  next
    case False
    show ?thesis
    proof (cases "find ?P ol")
      case None
      let ?new = "Node (vx n) (vy n) (vz n) (node_g cur + 1) (heuristic n e)
                    (node_g cur + 1 + heuristic n e) (Some cur)"
      have pn: "node_pos ?new = n" by (cases n) (simp add: node_pos_def)
      from None have notin: "n \<notin> node_pos ` set ol" by (simp add: find_pos_None)
      have mem: "n \<in> unvisited grid ol cl" using n False notin by (simp add: unvisited_def)
      have eq: "unvisited grid (ol @ [?new]) cl = unvisited grid ol cl - {n}"
        unfolding unvisited_def using pn by auto
      have fin: "finite (unvisited grid ol cl)" by (simp add: unvisited_def finite_cells)
      have "card (unvisited grid ol cl) \<ge> 1" using mem fin
        by (metis One_nat_def Suc_leI card_gt_0_iff empty_iff)
      then have "2 * card (unvisited grid (ol @ [?new]) cl) + length (ol @ [?new])
            \<le> 2 * card (unvisited grid ol cl) + length ol"
        unfolding eq using mem fin by (simp add: card_Diff_singleton)
      moreover have "visit_neighbors cur e cl (n # ns) ol
            = visit_neighbors cur e cl ns (ol @ [?new])"
        using False None by (simp add: Let_def)
      ultimately show ?thesis using Cons.IH[OF ns, of "ol @ [?new]"] by simp
    next
      case (Some openNode)
      have u: "unvisited grid (relax_first n (node_g cur + 1) cur ol) cl = unvisited grid ol cl"
        by (simp add: unvisited_def)
      show ?thesis
      proof (cases "node_g cur + 1 < node_g openNode")
        case True
        then have "visit_neighbors cur e cl (n # ns) ol
            = visit_neighbors cur e cl ns (relax_first n (node_g cur + 1) cur ol)"
          using False Some by (simp add: Let_def)
        then show ?thesis using Cons.IH[OF ns, of "relax_first n (node_g cur + 1) cur ol"] u
          by simp
      next
        case False
        then have "visit_neighbors cur e cl (n # ns) ol = visit_neighbors cur e cl ns ol"
          using \<open>n \<notin> cl\<close> Some by (simp add: Let_def)
        then show ?thesis using Cons.IH[OF ns, of ol] by simp
      qed
    qed
  qed
qed

lemma unvisited_pop:
  assumes "ol \<noteq> []"
  shows "unvisited grid (tl (sort_key node_f ol)) (insert (node_pos (hd (sort_key node_f ol))) cl)
         = unvisited grid ol cl"
proof -
  have ne: "sort_key node_f ol \<noteq> []" using assms by (metis length_0_conv length_sort)
  then have "set ol = insert (hd (sort_key node_f ol)) (set (tl (sort_key node_f ol)))"
    by (metis list.collapse list.simps(15) set_sort)
  then show ?thesis unfolding unvisited_def by auto
qed

termination search
proof (relation "measure (\<lambda>(grid, endPos, openList, closedList).
          2 * card (unvisited grid openList closedList) + length openList)", goal_cases)
  case 1
  show ?case by simp
next
  case (2 grid endPos openList closedList sorted current openList1 closedList1 neighbors)
  have ne: "openList \<noteq> []" using 2(1) by simp
  have cells: "set neighbors \<subseteq> cells grid"
    using 2 by (auto intro: getNeighbors_cells[THEN subsetD])
  have pop: "unvisited grid openList1 closedList1 = unvisited grid openList closedList"
    using unvisited_pop[OF ne] 2 by simp
  have "length (sort_key node_f openList) = length openList" by simp
  then have len: "length openList1 + 1 = length openList" using ne 2 by simp
  have "2 * card (unvisited grid (visit_neighbors current endPos closedList1 neighbors openList1)
                    closedList1)
        + length (visit_neighbors current endPos closedList1 neighbors openList1)
        \<le> 2 * card (unvisited grid openList1 closedList1) + length openList1"
    by (rule visit_neighbors_measure[OF cells])
  then show ?case using pop len by simp
qed

declare search.simps [simp del]

text \<open>\<open>findPath\<close>: an empty path when start and end coincide, the search otherwise.\<close>

definition findPath ::
  "grid \<Rightarrow> int \<Rightarrow> int \<Rightarrow> int \<Rightarrow> int \<Rightarrow> int \<Rightarrow> int \<Rightarrow> error + int vec3 list" where
  "findPath grid startX startY startZ endX endY endZ =
     (let start = Vec3 startX startY startZ;
          endPos = Vec3 endX endY endZ
      in if startX = endX \<and> startY = endY \<and> startZ = endZ then Inr []
         else search grid endPos
                [Node (vx start) (vy start) (vz start) 0 (heuristic start endPos)
                   (heuristic start endPos) None]
                {})"

text \<open>
  The warehouse writes \<open>grid[x][y][z] = 1\<close> for the cell of every box (\<open>addBox\<close>,
  \<open>updateBoxes\<close>).
\<close>

definition occupy :: "grid \<Rightarrow> nat \<Rightarrow> nat \<Rightarrow> nat \<Rightarrow> grid" where
  "occupy grid x y z = grid[x := (grid ! x)[y := (grid ! x ! y)[z := 1]]]"

text \<open>A grid as \<open>createEmptyGrid\<close> shapes it: every plane and every row has \<open>gridSize\<close> entries.\<close>

definition cubic :: "grid \<Rightarrow> bool" where
  "cubic grid =
     (\<forall>plane \<in> set grid. length plane = length grid \<and>
        (\<forall>row \<in> set plane. length row = length grid))"

definition occupied :: "grid \<Rightarrow> int vec3 \<Rightarrow> bool" where
  "occupied grid c = (grid ! nat (vx c) ! nat (vy c) ! nat (vz c) = 1)"

text \<open>A cell that \<open>getNeighbors\<close> accepts: inside the bounds and not an obstacle.\<close>

definition free_cell :: "grid \<Rightarrow> int vec3 \<Rightarrow> bool" where
  "free_cell grid c = (c \<in> cells grid \<and> \<not> occupied grid c)"

text \<open>The grid of the concrete scenario: 10 by 10 by 10, with the single obstacle (5,5,5).\<close>

definition scenario_grid :: grid where
  "scenario_grid = occupy (createEmptyGrid 10) 5 5 5"

text \<open>
  \<open>Robot.calculatePath\<close> and \<open>Robot.setTarget\<close>: the planner is called on the floored
  coordinates of the robot and of the target; the path becomes the robot's waypoints.
\<close>

definition calculatePath :: "grid \<Rightarrow> robot \<Rightarrow> error + int vec3 list" where
  "calculatePath grid r =
     (case targetPosition r of
        None \<Rightarrow> Inr []
      | Some t \<Rightarrow>
          findPath grid \<lfloor>vx (position r)\<rfloor> \<lfloor>vy (position r)\<rfloor> \<lfloor>vz (position r)\<rfloor>
            \<lfloor>vx t\<rfloor> \<lfloor>vy t\<rfloor> \<lfloor>vz t\<rfloor>)"

definition setTarget :: "real \<Rightarrow> real \<Rightarrow> real \<Rightarrow> grid \<Rightarrow> robot \<Rightarrow> error + robot" where
  "setTarget x y z grid r =
     (let r1 = r\<lparr>targetPosition := Some (Vec3 x y z)\<rparr> in
      case calculatePath grid r1 of
        Inl e \<Rightarrow> Inl e
      | Inr p \<Rightarrow>
          let r2 = r1\<lparr>path := map (\<lambda>c. Vec3 (real_of_int (vx c)) (real_of_int (vy c))
                                        (real_of_int (vz c))) p\<rparr>;
              r3 = r2\<lparr>moving := (length (path r2) > 0)\<rparr>
          in Inr (r3\<lparr>pathMarkers := path r3\<rparr>))"

subsection \<open>Notions for the proof that the search is optimal on a free grid\<close>

text \<open>The number of parent references behind a node: the length of the path that
  \<open>reconstructPath\<close> builds from it.\<close>

fun depth :: "node \<Rightarrow> nat" where
  "depth (Node x y z g h f None) = 0"
| "depth (Node x y z g h f (Some p)) = Suc (depth p)"

text \<open>One step from a cell towards the goal, first along x, then along z.\<close>

definition toward :: "int vec3 \<Rightarrow> int vec3 \<Rightarrow> int vec3" where
  "toward c t =
     (if vx c < vx t then Vec3 (vx c + 1) (vy c) (vz c)
      else if vx c > vx t then Vec3 (vx c - 1) (vy c) (vz c)
      else if vz c < vz t then Vec3 (vx c) (vy c) (vz c + 1)
      else Vec3 (vx c) (vy c) (vz c - 1))"

text \<open>The body of the neighbour loop for one neighbour.\<close>

definition visit_one :: "node \<Rightarrow> int vec3 \<Rightarrow> int vec3 set \<Rightarrow> int vec3 \<Rightarrow> node list \<Rightarrow> node list" where
  "visit_one cur t cl c ol =
     (if c \<in> cl then ol
      else case find (\<lambda>n. node_pos n = c) ol of
             None \<Rightarrow> ol @ [Node (vx c) (vy c) (vz c) (node_g cur + 1) (heuristic c t)
                              (node_g cur + 1 + heuristic c t) (Some cur)]
           | Some openNode \<Rightarrow>
               if node_g cur + 1 < node_g openNode
               then relax_first c (node_g cur + 1) cur ol else ol)"

text \<open>What holds of every node on the open list, for a search from \<open>s\<close> to \<open>t\<close>: it lies in the
  plane of the goal, its \<open>h\<close> and \<open>f\<close> are as computed, its \<open>g\<close> is at least the Manhattan distance
  from the start and is the length of its parent chain.\<close>

definition good_node :: "int vec3 \<Rightarrow> int vec3 \<Rightarrow> grid \<Rightarrow> node \<Rightarrow> bool" where
  "good_node s t G n =
     (node_pos n \<in> cells G \<and> node_y n = vy t \<and> node_h n = heuristic (node_pos n) t \<and>
      node_f n = node_g n + node_h n \<and> heuristic s (node_pos n) \<le> node_g n \<and>
      int (depth n) = node_g n)"

text \<open>The open list: one node for each cell, none of them closed, all of them good.\<close>

definition open_ok :: "int vec3 \<Rightarrow> int vec3 \<Rightarrow> grid \<Rightarrow> int vec3 set \<Rightarrow> node list \<Rightarrow> bool" where
  "open_ok s t G cl ol =
     (distinct (map node_pos ol) \<and> (\<forall>n \<in> set ol. node_pos n \<notin> cl \<and> good_node s t G n))"

text \<open>The open list holds a node for the cell \<open>p\<close> whose \<open>f\<close> is the Manhattan distance from start to goal.\<close>

definition at_D :: "int vec3 \<Rightarrow> int vec3 \<Rightarrow> node list \<Rightarrow> int vec3 \<Rightarrow> bool" where
  "at_D s t ol p = (\<exists>n \<in> set ol. node_pos n = p \<and> node_f n = heuristic s t)"

text \<open>The closed list: the goal is not closed, and from every closed cell the step towards the
  goal is closed or on the open list with the optimal \<open>f\<close>; so is the start.\<close>

definition closed_ok :: "int vec3 \<Rightarrow> int vec3 \<Rightarrow> grid \<Rightarrow> int vec3 set \<Rightarrow> node list \<Rightarrow> bool" where
  "closed_ok s t G cl ol =
     (t \<notin> cl \<and>
      (\<forall>c \<in> cl. c \<in> cells G \<and> vy c = vy t \<and> (toward c t \<in> cl \<or> at_D s t ol (toward c t))) \<and>
      (s \<in> cl \<or> at_D s t ol s))"

text \<open>
  A route: from a cell, a list of waypoints each one unit step in x or z from the one
  before (the first from the cell itself), all of them cells that \<open>getNeighbors\<close> accepts.
\<close>

definition unit_step :: "int vec3 \<Rightarrow> int vec3 \<Rightarrow> bool" where
  "unit_step c d = (vy d = vy c \<and> \<bar>vx d - vx c\<bar> + \<bar>vz d - vz c\<bar> = 1)"

fun is_route :: "grid \<Rightarrow> int vec3 \<Rightarrow> int vec3 list \<Rightarrow> bool" where
  "is_route G c [] = True"
| "is_route G c (d # ds) = (unit_step c d \<and> free_cell G d \<and> is_route G d ds)"

text \<open>The path that \<open>reconstructPath\<close> builds from a node is a route from the start to the
  node's cell.\<close>

definition routed :: "int vec3 \<Rightarrow> grid \<Rightarrow> node \<Rightarrow> bool" where
  "routed s G n =
     (is_route G s (reconstructPath n) \<and> last (s # reconstructPath n) = node_pos n)"


section \<open>Properties of the detection models\<close>

subsection \<open>Bookkeeping of the scoring loop\<close>

lemma scan_boxes_counts:
  "scan_boxes entity bs (dets, detected, i) = (dets', detected', i') \<Longrightarrow>
   detected' - int (length dets') = detected - int (length dets)"
proof (induction bs arbitrary: dets detected i)
  case Nil
  then show ?case by simp
next
  case (Cons b bs)
  show ?case
  proof (cases "entity i b")
    case (Pair o1 j)
    show ?thesis
    proof (cases o1)
      case None
      with Pair Cons.prems
      have "scan_boxes entity bs (dets, detected, j) = (dets', detected', i')" by simp
      from Cons.IH[OF this] show ?thesis by simp
    next
      case (Some d)
      with Pair Cons.prems
      have "scan_boxes entity bs (dets @ [d], detected + 1, j) = (dets', detected', i')" by simp
      from Cons.IH[OF this] show ?thesis by simp
    qed
  qed
qed


lemma calculateMissRate_fields:
  "totalDetections (calculateMissRate d t m) = totalDetections m + t"
  "missedDetections (calculateMissRate d t m) = missedDetections m + (t - d)"
  "missRate (calculateMissRate d t m) = ratio (calculateMissRate d t m)"
  "detections (calculateMissRate d t m) = detections m"
  by (simp_all add: calculateMissRate_def Let_def ratio_def)

lemma detect_counts:
  assumes rd: "rd = Baseline_runDetection \<or> rd = QINA_runDetection"
    and d: "detect rd s e rnd i v bs m = (r, m', i')"
  shows "totalDetections m' = totalDetections m + int (length bs)"
    and "missedDetections m' =
           missedDetections m + (int (length bs) - int (length (res_detections r)))"
    and "missRate m' = ratio m'"
    and "res_missRate r = missRate m'"
    and "res_detections r = detections m'"
proof -
  obtain en where sc_def:
    "en = (if rd = Baseline_runDetection then Baseline_entity (threshold m) rnd
           else QINA_entity (threshold m) rnd)" by simp
  obtain dets detected j where sc: "scan_boxes en bs ([], 0, i) = (dets, detected, j)"
    by (cases "scan_boxes en bs ([], 0, i)") auto
  from scan_boxes_counts[OF sc] have dl: "detected = int (length dets)" by simp
  define m1 where "m1 = calculateMissRate detected (int (length bs)) (m\<lparr>detections := dets\<rparr>)"
  have both: "m' = m1\<lparr>processTime := (e - s) / 1000\<rparr> \<and>
      r = \<lparr>res_detections = detections m', res_processTime = processTime m',
           res_missRate = missRate m'\<rparr>"
    using rd d sc sc_def
    by (auto simp: detect_def Baseline_runDetection_def QINA_runDetection_def Let_def m1_def
        split: prod.splits if_splits)
  then have m': "m' = m1\<lparr>processTime := (e - s) / 1000\<rparr>"
    and r: "r = \<lparr>res_detections = detections m', res_processTime = processTime m',
                res_missRate = missRate m'\<rparr>" by simp_all
  show "totalDetections m' = totalDetections m + int (length bs)"
    by (simp add: m' m1_def calculateMissRate_fields)
  show "res_detections r = detections m'" by (subst r) simp
  have "detections m' = dets" by (simp add: m' m1_def calculateMissRate_fields)
  then have "length (res_detections r) = length dets" by (subst r) simp
  then show "missedDetections m' =
      missedDetections m + (int (length bs) - int (length (res_detections r)))"
    by (simp add: m' m1_def calculateMissRate_fields dl)
  show "missRate m' = ratio m'"
    by (simp add: m' m1_def calculateMissRate_fields(3) ratio_def)
  show "res_missRate r = missRate m'" by (subst r) simp
qed

lemma run_passes_totals:
  assumes rd: "rd = Baseline_runDetection \<or> rd = QINA_runDetection"
  shows "run_passes rd rnd ps (m, i) = (rs, m', i') \<Longrightarrow>
    totalDetections m' = totalDetections m + evaluated_sum ps \<and>
    missedDetections m' = missedDetections m + missed_sum ps rs \<and>
    (ps \<noteq> [] \<longrightarrow> missRate m' = ratio m' \<and> res_missRate (last rs) = missRate m') \<and>
    (ps = [] \<longrightarrow> m' = m) \<and> length rs = length ps"
proof (induction ps arbitrary: m i rs)
  case Nil
  then show ?case by (auto simp: evaluated_sum_def missed_sum_def)
next
  case (Cons p ps)
  obtain s e v bs where p: "p = (s, e, v, bs)" by (cases p) auto
  obtain r m1 i1 where d: "detect rd s e rnd i v bs m = (r, m1, i1)"
    by (cases "detect rd s e rnd i v bs m") auto
  obtain rs1 where rs: "rs = r # rs1" and rec: "run_passes rd rnd ps (m1, i1) = (rs1, m', i')"
    using Cons.prems p d by (auto split: prod.splits)
  note dc = detect_counts[OF rd d]
  note ih = Cons.IH[OF rec]
  have ev: "evaluated_sum (p # ps) = int (length bs) + evaluated_sum ps"
    by (simp add: evaluated_sum_def p)
  have mi: "missed_sum (p # ps) rs =
      (int (length bs) - int (length (res_detections r))) + missed_sum ps rs1"
    by (simp add: missed_sum_def p rs)
  show ?case
  proof (cases "ps = []")
    case True
    with ih have "m' = m1" "rs1 = []" by auto
    then show ?thesis using dc ev mi True rs
      by (simp add: evaluated_sum_def missed_sum_def)
  next
    case False
    with ih have "rs1 \<noteq> []" by auto
    then show ?thesis using ih dc ev mi rs False by simp
  qed
qed

subsection \<open>C1: the reported time of QINA\<close>

text \<open>
  C1 says that \<open>detect\<close> of the QINA model reports the elapsed scoring time scaled by
  0.85. In the code the scaling \<open>this.processTime *= 0.85\<close> runs inside
  \<open>_runDetection\<close>, before \<open>detect\<close> assigns the elapsed time to \<open>processTime\<close>, so
  it scales the time of the previous pass and is then overwritten. With the clock
  reading 0 ms before and 1000 ms after the scoring, the reported time is 1 s, not 0.85 s.
\<close>

theorem QINA_detect_reports_unscaled_time:
  "res_processTime (fst (QINA_detect 0 1000 (\<lambda>n. 0) 0 [] [] QINAModel)) = 1 \<and>
   res_processTime (fst (QINA_detect 0 1000 (\<lambda>n. 0) 0 [] [] QINAModel))
     \<noteq> 0.85 * ((1000 - 0) / 1000)"
  by (simp add: QINA_detect_def detect_def QINA_runDetection_def Let_def split: prod.splits)

lemma QINA_detect_processTime:
  "res_processTime (fst (QINA_detect startTime endTime rnd i v boxes m))
     = (endTime - startTime) / 1000"
  by (simp add: QINA_detect_def detect_def QINA_runDetection_def Let_def split: prod.splits)

subsection \<open>C5: QINA misses no entity that Baseline detects\<close>

text \<open>
  C5: for every entity and every pair of shared random draws (the noise draw \<open>rnd i\<close> and
  the systematic-miss draw \<open>rnd (i + 1)\<close>, read by both models at the same cursor), if
  QINA counts the entity as a miss, so does Baseline. The set of draws on which QINA misses
  is therefore contained in the set on which Baseline misses, which is the comparison of
  the two miss probabilities.
\<close>

theorem QINA_miss_implies_Baseline_miss:
  "fst (QINA_entity (threshold QINAModel) rnd i b) = None \<Longrightarrow>
   fst (Baseline_entity (threshold BaselineModel) rnd i b) = None"
proof -
  assume a: "fst (QINA_entity (threshold QINAModel) rnd i b) = None"
  define r where "r = \<bar>sin (box_rotation b * pi / 90)\<bar>"
  define c where "c = \<bar>box_scale b - 1\<bar>"
  have r0: "0 \<le> r" and c0: "0 \<le> c" by (simp_all add: r_def c_def)
  from a have "1 - r * 0.2 - c * 0.2 - rnd i * 0.1 < 0.3 \<or> rnd (i + 1) < 0.02"
    by (auto simp: QINA_entity_def QINAModel_def AIModel_def QINA_probability_def Let_def
        r_def c_def split: if_splits)
  then have "1 - r * 0.5 - c * 0.5 - rnd i * 0.2 < 0.5 \<or> rnd (i + 1) < 0.1"
    using r0 c0 by (cases "0 \<le> rnd i") auto
  then show ?thesis
    by (auto simp: Baseline_entity_def BaselineModel_def AIModel_def Baseline_probability_def
        Let_def r_def c_def)
qed

theorem QINA_miss_implies_Baseline_miss_witness:
  "fst (QINA_entity (threshold QINAModel) (\<lambda>n. 1 / 100) 0
         \<lparr>box_position = Vec3 8 0 8, box_rotation = 0, box_scale = 1\<rparr>) = None \<and>
   fst (Baseline_entity (threshold BaselineModel) (\<lambda>n. 1 / 100) 0
         \<lparr>box_position = Vec3 8 0 8, box_rotation = 0, box_scale = 1\<rparr>) = None"
proof -
  have h: "fst (QINA_entity (threshold QINAModel) (\<lambda>n. 1 / 100) 0
         \<lparr>box_position = Vec3 8 0 8, box_rotation = 0, box_scale = 1\<rparr>) = None"
    by (simp add: QINA_entity_def QINAModel_def AIModel_def QINA_probability_def Let_def)
  from h QINA_miss_implies_Baseline_miss[OF h] show ?thesis by simp
qed

subsection \<open>C6: the reported miss rate is the cumulative ratio\<close>

text \<open>
  C6: for every sequence \<open>ps\<close> of evaluation passes run on a model since its last reset
  (either model), the miss rate held by the model afterwards, which is also the one the
  last pass reported, is the sum of the missed counts divided by the sum of the evaluated
  counts, times 100, and 0 when nothing was evaluated; a further pass over an empty list
  of entities reports no detection and the same miss rate.
\<close>

theorem miss_rate_cumulative:
  assumes rd: "rd = Baseline_runDetection \<or> rd = QINA_runDetection"
    and run: "run_passes rd rnd ps (reset_model m, i) = (rs, m', i')"
  shows "missRate m' =
           (if evaluated_sum ps > 0
            then (real_of_int (missed_sum ps rs) / real_of_int (evaluated_sum ps)) * 100
            else 0)
         \<and> (ps \<noteq> [] \<longrightarrow> res_missRate (last rs) = missRate m')
         \<and> res_detections (fst (detect rd startTime endTime rnd i' visualData [] m')) = []
         \<and> res_missRate (fst (detect rd startTime endTime rnd i' visualData [] m'))
             = missRate m'"
proof -
  note t = run_passes_totals[OF rd run]
  have tot: "totalDetections m' = evaluated_sum ps"
    and mis: "missedDetections m' = missed_sum ps rs"
    using t by (simp_all add: reset_model_def)
  have inv: "missRate m' = ratio m'"
  proof (cases "ps = []")
    case True
    with t have "m' = reset_model m" by simp
    then show ?thesis by (simp add: reset_model_def ratio_def)
  next
    case False
    with t show ?thesis by simp
  qed
  obtain r m2 i2 where d: "detect rd startTime endTime rnd i' visualData [] m' = (r, m2, i2)"
    by (cases "detect rd startTime endTime rnd i' visualData [] m'") auto
  note dc = detect_counts[OF rd d]
  have len0: "length (res_detections r) = 0"
  proof -
    have "res_detections r = []" using rd d
      by (auto simp: detect_def Baseline_runDetection_def QINA_runDetection_def Let_def
          calculateMissRate_fields split: prod.splits)
    then show ?thesis by simp
  qed
  then have "ratio m2 = ratio m'" using dc(1,2) by (simp add: ratio_def)
  then have c4: "res_missRate (fst (detect rd startTime endTime rnd i' visualData [] m'))
      = missRate m'"
    using dc(3,4) inv d by simp
  have c3: "res_detections (fst (detect rd startTime endTime rnd i' visualData [] m')) = []"
    using len0 d by simp
  have c1: "missRate m' =
           (if evaluated_sum ps > 0
            then (real_of_int (missed_sum ps rs) / real_of_int (evaluated_sum ps)) * 100
            else 0)"
    using inv tot mis by (simp add: ratio_def)
  have c2: "ps \<noteq> [] \<longrightarrow> res_missRate (last rs) = missRate m'" using t by simp
  from c1 c2 c3 c4 show ?thesis by blast
qed


lemma demo_passes_run:
  "run_passes Baseline_runDetection (\<lambda>n. 1 / 2) demo_passes (reset_model BaselineModel, 0) =
   ([\<lparr>res_detections = [\<lparr>det_position = Vec3 8 0 8, confidence = 9 / 10\<rparr>],
      res_processTime = 1 / 1000, res_missRate = 50\<rparr>,
     \<lparr>res_detections = [\<lparr>det_position = Vec3 8 0 8, confidence = 9 / 10\<rparr>],
      res_processTime = 1 / 1000, res_missRate = 100 / 3\<rparr>],
    \<lparr>name = ''Baseline'',
     detections = [\<lparr>det_position = Vec3 8 0 8, confidence = 9 / 10\<rparr>],
     processTime = 1 / 1000, missRate = 100 / 3, totalDetections = 3, missedDetections = 1,
     threshold = 1 / 2\<rparr>, 5)"
  by (simp add: demo_passes_def detect_def Baseline_runDetection_def Baseline_entity_def
      Baseline_probability_def BaselineModel_def AIModel_def reset_model_def
      calculateMissRate_def Let_def)

theorem miss_rate_cumulative_witness:
  "missRate (fst (snd (run_passes Baseline_runDetection (\<lambda>n. 1 / 2) demo_passes
                         (reset_model BaselineModel, 0)))) = (1 / 3) * 100 \<and>
   res_missRate (last (fst (run_passes Baseline_runDetection (\<lambda>n. 1 / 2) demo_passes
                         (reset_model BaselineModel, 0)))) = (1 / 3) * 100 \<and>
   demo_passes \<noteq> []"
  using miss_rate_cumulative[OF disjI1[OF refl] demo_passes_run]
  by (simp add: demo_passes_run) (simp add: demo_passes_def evaluated_sum_def missed_sum_def)

section \<open>Properties of the motion controller\<close>

subsection \<open>C9: reset followed by a tick\<close>

text \<open>
  C9: for every robot state and every \<open>deltaTime\<close>, \<open>reset(x, y, z)\<close> followed by one
  \<open>update(deltaTime)\<close> leaves the position at \<open>(x, y, z)\<close>, the heading at its initial
  value 0, the path empty and \<open>moving\<close> false: the tick changes nothing.
\<close>

theorem reset_then_update:
  "update deltaTime (reset x y z r) = reset x y z r \<and>
   position (update deltaTime (reset x y z r)) = Vec3 x y z \<and>
   currentRotation (update deltaTime (reset x y z r)) = 0 \<and>
   path (update deltaTime (reset x y z r)) = [] \<and>
   \<not> moving (update deltaTime (reset x y z r))"
  by (simp add: update_def reset_def)

subsection \<open>The normalized rotation difference\<close>

text \<open>\<open>normalize d\<close> differs from \<open>d\<close> by a whole number of turns and lies in \<open>[-\<pi>, \<pi>]\<close>.\<close>

lemma normalize_down_props:
  "normalize_down d \<le> max d pi \<and> (- pi \<le> d \<longrightarrow> - pi \<le> normalize_down d) \<and>
   (d \<le> pi \<longrightarrow> normalize_down d = d) \<and> (pi < d \<longrightarrow> - pi < normalize_down d \<and> normalize_down d \<le> pi) \<and>
   (\<exists>k::int. normalize_down d = d - 2 * pi * of_int k)"
proof (induction d rule: normalize_down.induct)
  case (1 d)
  show ?case
  proof (cases "d > pi")
    case True
    then have eq: "normalize_down d = normalize_down (d - 2 * pi)" by (subst normalize_down.simps) simp
    note ih = 1[OF True]
    from ih obtain k :: int where k: "normalize_down (d - 2 * pi) = d - 2 * pi - 2 * pi * of_int k" by blast
    have ex: "\<exists>k::int. normalize_down d = d - 2 * pi * of_int k"
      unfolding eq k by (rule exI[of _ "k + 1"]) (simp add: algebra_simps)
    have b: "- pi < normalize_down (d - 2 * pi) \<and> normalize_down (d - 2 * pi) \<le> pi"
    proof (cases "d - 2 * pi \<le> pi")
      case True
      with ih have "normalize_down (d - 2 * pi) = d - 2 * pi" by simp
      then show ?thesis using True \<open>d > pi\<close> by simp
    next
      case False
      with ih show ?thesis by simp
    qed
    show ?thesis using True eq ex b by (simp add: max_def)
  next
    case False
    then have eq: "normalize_down d = d" by (subst normalize_down.simps) simp
    have "\<exists>k::int. normalize_down d = d - 2 * pi * of_int k"
      by (rule exI[of _ 0]) (simp add: eq)
    then show ?thesis using False eq by (simp add: max_def)
  qed
qed

lemma normalize_up_props:
  "(- pi \<le> d \<longrightarrow> normalize_up d = d) \<and> (d < - pi \<longrightarrow> - pi \<le> normalize_up d \<and> normalize_up d < pi) \<and>
   (\<exists>k::int. normalize_up d = d - 2 * pi * of_int k)"
proof (induction d rule: normalize_up.induct)
  case (1 d)
  show ?case
  proof (cases "d < - pi")
    case True
    then have eq: "normalize_up d = normalize_up (d + 2 * pi)" by (subst normalize_up.simps) simp
    note ih = 1[OF True]
    from ih obtain k :: int where k: "normalize_up (d + 2 * pi) = d + 2 * pi - 2 * pi * of_int k" by blast
    have ex: "\<exists>k::int. normalize_up d = d - 2 * pi * of_int k"
      unfolding eq k by (rule exI[of _ "k - 1"]) (simp add: algebra_simps)
    have b: "- pi \<le> normalize_up (d + 2 * pi) \<and> normalize_up (d + 2 * pi) < pi"
    proof (cases "- pi \<le> d + 2 * pi")
      case True
      with ih have "normalize_up (d + 2 * pi) = d + 2 * pi" by simp
      then show ?thesis using True \<open>d < - pi\<close> by simp
    next
      case False
      with ih show ?thesis by simp
    qed
    show ?thesis using True eq ex b by simp
  next
    case False
    then have eq: "normalize_up d = d" by (subst normalize_up.simps) simp
    have "\<exists>k::int. normalize_up d = d - 2 * pi * of_int k"
      by (rule exI[of _ 0]) (simp add: eq)
    then show ?thesis using False eq by simp
  qed
qed

lemma normalize_range: "- pi \<le> normalize d" "normalize d \<le> pi"
proof -
  let ?e = "normalize_down d"
  have d1: "?e \<le> pi \<or> ?e = d" using normalize_down_props[of d] by (cases "d \<le> pi") auto
  have "?e \<le> pi" using normalize_down_props[of d] by (cases "d \<le> pi") auto
  show "- pi \<le> normalize d" using normalize_up_props[of ?e] unfolding normalize_def
    by (cases "- pi \<le> ?e") auto
  show "normalize d \<le> pi" using normalize_up_props[of ?e] \<open>?e \<le> pi\<close> unfolding normalize_def
    by (cases "- pi \<le> ?e") auto
qed

lemma normalize_turns: "\<exists>k::int. normalize d = d - 2 * pi * of_int k"
proof -
  from normalize_down_props[of d] obtain k :: int where k: "normalize_down d = d - 2 * pi * of_int k" by blast
  from normalize_up_props[of "normalize_down d"] obtain j :: int
    where j: "normalize_up (normalize_down d) = normalize_down d - 2 * pi * of_int j" by blast
  show ?thesis unfolding normalize_def j unfolding k by (rule exI[of _ "k + j"]) (simp add: algebra_simps)
qed

text \<open>The magnitude is the distance to the nearest whole turn.\<close>
lemma abs_normalize_unique:
  assumes "- pi \<le> y" "y \<le> pi" "y = d - 2 * pi * of_int (k::int)"
  shows "\<bar>normalize d\<bar> = \<bar>y\<bar>"
proof -
  from normalize_turns[of d] obtain j :: int where j: "normalize d = d - 2 * pi * of_int j" by blast
  have diff: "normalize d - y = 2 * pi * of_int (k - j)" using assms(3) j by (simp add: algebra_simps)
  note r = normalize_range[of d]
  consider "k - j = 0" | "k - j \<ge> 1" | "k - j \<le> -1" by linarith
  then show ?thesis
  proof cases
    case 1
    with diff show ?thesis by simp
  next
    case 2
    then have "(1::real) \<le> of_int (k - j)" by (metis of_int_1 of_int_le_iff)
    then have "2 * pi * 1 \<le> 2 * pi * of_int (k - j)" by (intro mult_left_mono) simp_all
    with diff have "normalize d - y \<ge> 2 * pi" by simp
    with r assms(1,2) have "normalize d = pi \<and> y = - pi" by linarith
    then show ?thesis by simp
  next
    case 3
    then have "of_int (k - j) \<le> (-1::real)" by (metis of_int_le_iff of_int_minus of_int_1)
    then have "2 * pi * of_int (k - j) \<le> 2 * pi * (-1)" by (intro mult_left_mono) simp_all
    with diff have "normalize d - y \<le> - 2 * pi" by simp
    with r assms(1,2) have "normalize d = - pi \<and> y = pi" by linarith
    then show ?thesis by simp
  qed
qed


lemma abs_normalize_le: "\<bar>normalize d\<bar> \<le> \<bar>d\<bar>"
proof (cases "\<bar>d\<bar> \<le> pi")
  case True
  then have "- pi \<le> d" "d \<le> pi" by simp_all
  then have "\<bar>normalize d\<bar> = \<bar>d\<bar>" by (rule abs_normalize_unique[where k = 0]) simp
  then show ?thesis by simp
next
  case False
  with normalize_range[of d] show ?thesis by simp
qed

lemma update_rotation:
  assumes "moving r" "path r \<noteq> []"
  shows "targetRotation (update deltaTime r)
           = atan2 (vz (hd (path r)) - vz (position r)) (vx (hd (path r)) - vx (position r))"
    and "currentRotation (update deltaTime r) =
           (let t = atan2 (vz (hd (path r)) - vz (position r)) (vx (hd (path r)) - vx (position r));
                n = normalize (t - currentRotation r)
            in if \<bar>n\<bar> > rotationSpeed r * deltaTime
               then currentRotation r + sgn n * (rotationSpeed r * deltaTime) else t)"
  using assms by (simp_all add: update_def Let_def)

lemma rotate_step_error:
  assumes R: "0 \<le> R" and big: "\<bar>normalize (t - c)\<bar> > R"
  shows "\<bar>normalize (t - (c + sgn (normalize (t - c)) * R))\<bar> = \<bar>normalize (t - c)\<bar> - R"
proof -
  let ?n = "normalize (t - c)"
  from normalize_turns[of "t - c"] obtain k :: int where k: "?n = (t - c) - 2 * pi * of_int k" by blast
  let ?y = "?n - sgn ?n * R"
  have ay: "\<bar>?y\<bar> = \<bar>?n\<bar> - R" using R big by (cases "?n > 0") (auto simp: sgn_if)
  have "\<bar>?n\<bar> \<le> pi" using normalize_range[of "t - c"] by simp
  with ay R have "\<bar>?y\<bar> \<le> pi" by simp
  then have y1: "- pi \<le> ?y" and y2: "?y \<le> pi" by (simp_all add: abs_le_iff)
  have y3: "?y = (t - (c + sgn ?n * R)) - 2 * pi * of_int k" using k by (simp add: algebra_simps)
  from abs_normalize_unique[OF y1 y2 y3] ay show ?thesis by simp
qed

subsection \<open>C8: the heading error does not grow within a tick\<close>

text \<open>
  C8: in every tick of a moving robot with a nonempty path and \<open>deltaTime > 0\<close>, the
  magnitude of the normalized heading error with respect to the target heading of that tick
  is, after the tick, at most what it was before; it drops by exactly the rotation budget
  \<open>rotationSpeed * deltaTime\<close> when it exceeded the budget and to 0 otherwise, so the
  heading never passes the target, and the turn made in the tick is at most the budget.
\<close>

theorem heading_error_non_increasing:
  assumes mv: "moving r" and pa: "path r \<noteq> []" and dt: "0 < deltaTime"
    and rs: "0 \<le> rotationSpeed r"
  shows "heading_error (targetRotation (update deltaTime r)) (currentRotation (update deltaTime r))
           \<le> heading_error (targetRotation (update deltaTime r)) (currentRotation r)
       \<and> heading_error (targetRotation (update deltaTime r)) (currentRotation (update deltaTime r))
           = (if heading_error (targetRotation (update deltaTime r)) (currentRotation r)
                   > rotationSpeed r * deltaTime
              then heading_error (targetRotation (update deltaTime r)) (currentRotation r)
                   - rotationSpeed r * deltaTime
              else 0)
       \<and> heading_error (currentRotation (update deltaTime r)) (currentRotation r)
           \<le> rotationSpeed r * deltaTime"
proof -
  define t where "t = atan2 (vz (hd (path r)) - vz (position r)) (vx (hd (path r)) - vx (position r))"
  define R where "R = rotationSpeed r * deltaTime"
  define n where "n = normalize (t - currentRotation r)"
  have R0: "0 \<le> R" using dt rs by (simp add: R_def)
  have tr: "targetRotation (update deltaTime r) = t"
    using update_rotation(1)[OF mv pa] by (simp add: t_def)
  have cr: "currentRotation (update deltaTime r) = (if \<bar>n\<bar> > R then currentRotation r + sgn n * R else t)"
    using update_rotation(2)[OF mv pa] by (simp add: t_def R_def n_def Let_def)
  have n0: "normalize 0 = 0"
    by (simp add: normalize_def normalize_down.simps normalize_up.simps)
  show ?thesis
  proof (cases "\<bar>n\<bar> > R")
    case True
    then have c': "currentRotation (update deltaTime r) = currentRotation r + sgn n * R" using cr by simp
    have e: "\<bar>normalize (t - (currentRotation r + sgn n * R))\<bar> = \<bar>n\<bar> - R"
      using rotate_step_error[OF R0, of t "currentRotation r"] True by (simp add: n_def)
    have turn: "\<bar>normalize (sgn n * R)\<bar> \<le> R"
      using abs_normalize_le[of "sgn n * R"] R0 by (simp add: abs_mult sgn_if split: if_splits)
    show ?thesis using True e turn R0
      by (simp add: heading_error_def tr c' n_def[symmetric] R_def[symmetric])
  next
    case False
    then have c': "currentRotation (update deltaTime r) = t" using cr by simp
    show ?thesis using False R0
      by (simp add: heading_error_def tr c' n_def[symmetric] R_def[symmetric] n0)
  qed
qed

theorem heading_error_non_increasing_witness:
  "moving demo_robot_turn \<and> path demo_robot_turn \<noteq> [] \<and> (0::real) < 1 / 10 \<and>
   0 \<le> rotationSpeed demo_robot_turn \<and>
   heading_error (targetRotation (update (1 / 10) demo_robot_turn))
                 (currentRotation (update (1 / 10) demo_robot_turn))
     \<le> heading_error (targetRotation (update (1 / 10) demo_robot_turn))
                       (currentRotation demo_robot_turn)"
proof -
  have h: "moving demo_robot_turn" "path demo_robot_turn \<noteq> []" "(0::real) < 1 / 10"
    "0 \<le> rotationSpeed demo_robot_turn"
    by (simp_all add: demo_robot_turn_def Robot_def)
  from h heading_error_non_increasing[OF h] show ?thesis by blast
qed

subsection \<open>C7: how fast the controller can empty the path\<close>












section \<open>Properties of the planner\<close>

subsection \<open>Neighbours on a cubic grid, and the search loop unfolded once\<close>

lemma grid_cell_cubic:
  assumes "cubic grid" "Vec3 x y z \<in> cells grid"
  shows "grid_cell grid x y z = Inr (Some (grid ! nat x ! nat y ! nat z))"
proof -
  from assms(2) have b: "nat x < length grid" "nat y < length grid" "nat z < length grid"
    by (auto simp: cells_iff)
  then have p: "grid ! nat x \<in> set grid" by simp
  with assms(1) have lp: "length (grid ! nat x) = length grid" by (simp add: cubic_def)
  then have "grid ! nat x ! nat y \<in> set (grid ! nat x)" using b by simp
  with assms(1) p have "length (grid ! nat x ! nat y) = length grid" by (simp add: cubic_def)
  then show ?thesis using b lp by (simp add: grid_cell_def Let_def)
qed

lemma neighbors_loop_cubic:
  assumes "cubic grid"
  shows "neighbors_loop grid x y z dirs acc =
     Inr (acc @ filter (free_cell grid) (map (\<lambda>(dx, dy, dz). Vec3 (x + dx) (y + dy) (z + dz)) dirs))"
proof (induction dirs arbitrary: acc)
  case Nil
  then show ?case by simp
next
  case (Cons d dirs)
  obtain dx dy dz where d: "d = (dx, dy, dz)" by (cases d) auto
  show ?case
  proof (cases "Vec3 (x + dx) (y + dy) (z + dz) \<in> cells grid")
    case True
    then have b: "x + dx \<ge> 0 \<and> x + dx < int (length grid) \<and> y + dy \<ge> 0 \<and>
                y + dy < int (length grid) \<and> z + dz \<ge> 0 \<and> z + dz < int (length grid)"
      by (simp add: cells_iff)
    have gc: "grid_cell grid (x + dx) (y + dy) (z + dz)
         = Inr (Some (grid ! nat (x + dx) ! nat (y + dy) ! nat (z + dz)))"
      by (rule grid_cell_cubic[OF assms True])
    show ?thesis using True gc Cons.IH
      by (simp add: d Let_def cells_iff[symmetric] free_cell_def occupied_def)
  next
    case False
    then have b: "\<not> (x + dx \<ge> 0 \<and> x + dx < int (length grid) \<and> y + dy \<ge> 0 \<and>
                y + dy < int (length grid) \<and> z + dz \<ge> 0 \<and> z + dz < int (length grid))"
      by (simp add: cells_iff)
    show ?thesis using False Cons.IH
      by (simp add: d Let_def cells_iff[symmetric] free_cell_def)
  qed
qed

lemma getNeighbors_cubic:
  assumes "cubic grid"
  shows "getNeighbors grid x y z =
     Inr (filter (free_cell grid) [Vec3 (x + 1) y z, Vec3 (x - 1) y z, Vec3 x y (z + 1), Vec3 x y (z - 1)])"
  unfolding getNeighbors_def neighbors_loop_cubic[OF assms] by (simp add: directions_def)

lemma visit_neighbors_avoids:
  "\<forall>n \<in> set ol. node_pos n \<noteq> goal \<Longrightarrow> goal \<notin> set ns \<Longrightarrow>
   \<forall>n \<in> set (visit_neighbors cur e cl ns ol). node_pos n \<noteq> goal"
proof (induction ns arbitrary: ol)
  case Nil
  then show ?case by simp
next
  case (Cons c ns)
  have g: "goal \<notin> set ns" and cg: "c \<noteq> goal" using Cons.prems(2) by auto
  let ?new = "Node (vx c) (vy c) (vz c) (node_g cur + 1) (heuristic c e)
                    (node_g cur + 1 + heuristic c e) (Some cur)"
  have pn: "node_pos ?new = c" by (cases c) (simp add: node_pos_def)
  have a1: "\<forall>n \<in> set (ol @ [?new]). node_pos n \<noteq> goal" using Cons.prems(1) pn cg by auto
  have "node_pos ` set (relax_first c (node_g cur + 1) cur ol) = node_pos ` set ol" by simp
  then have a2: "\<forall>n \<in> set (relax_first c (node_g cur + 1) cur ol). node_pos n \<noteq> goal"
    using Cons.prems(1) by (metis imageE image_eqI)
  show ?case
    using Cons.IH[OF Cons.prems(1) g] Cons.IH[OF a1 g] Cons.IH[OF a2 g]
    by (simp add: Let_def split: option.splits)
qed

lemma hd_sort_key_mem: "ol \<noteq> [] \<Longrightarrow> hd (sort_key k ol) \<in> set ol"
  by (metis hd_in_set length_0_conv length_sort set_sort)

lemma set_tl_sort_key: "set (tl (sort_key k ol)) \<subseteq> set ol"
  by (metis list.set_sel(2) set_sort subsetI tl_Nil)

lemma node_pos_eq:
  "(node_x n = vx c \<and> node_y n = vy c \<and> node_z n = vz c) = (node_pos n = c)"
  by (cases c) (auto simp: node_pos_def)

lemma search_Nil: "search grid goal [] cl = Inr []"
  by (subst search.simps) simp

lemma search_step:
  "ol \<noteq> [] \<Longrightarrow>
   search grid goal ol cl =
     (if node_pos (hd (sort_key node_f ol)) = goal
      then Inr (reconstructPath (hd (sort_key node_f ol)))
      else case getNeighbors grid (node_x (hd (sort_key node_f ol)))
                  (node_y (hd (sort_key node_f ol))) (node_z (hd (sort_key node_f ol))) of
             Inl e \<Rightarrow> Inl e
           | Inr ns \<Rightarrow>
               search grid goal
                 (visit_neighbors (hd (sort_key node_f ol)) goal
                    (insert (node_pos (hd (sort_key node_f ol))) cl) ns
                    (tl (sort_key node_f ol)))
                 (insert (node_pos (hd (sort_key node_f ol))) cl))"
  by (subst search.simps) (simp add: Let_def node_pos_eq)

lemma search_induct [consumes 0, case_names step]:
  assumes "\<And>grid goal ol cl.
     (\<And>ns. ol \<noteq> [] \<Longrightarrow> node_pos (hd (sort_key node_f ol)) \<noteq> goal \<Longrightarrow>
        getNeighbors grid (node_x (hd (sort_key node_f ol)))
          (node_y (hd (sort_key node_f ol))) (node_z (hd (sort_key node_f ol))) = Inr ns \<Longrightarrow>
        P grid goal
          (visit_neighbors (hd (sort_key node_f ol)) goal
             (insert (node_pos (hd (sort_key node_f ol))) cl) ns (tl (sort_key node_f ol)))
          (insert (node_pos (hd (sort_key node_f ol))) cl))
     \<Longrightarrow> P grid goal ol cl"
  shows "P grid goal ol cl"
proof (induction grid goal ol cl rule: search.induct)
  case (1 grid goal ol cl)
  show ?case
  proof (rule assms)
    fix ns
    assume a: "ol \<noteq> []" "node_pos (hd (sort_key node_f ol)) \<noteq> goal"
      "getNeighbors grid (node_x (hd (sort_key node_f ol)))
          (node_y (hd (sort_key node_f ol))) (node_z (hd (sort_key node_f ol))) = Inr ns"
    have ng: "\<not> (node_x (hd (sort_key node_f ol)) = vx goal \<and>
                 node_y (hd (sort_key node_f ol)) = vy goal \<and>
                 node_z (hd (sort_key node_f ol)) = vz goal)"
      using a(2) by (simp only: node_pos_eq not_False_eq_True)
    have l: "0 < length ol" using a(1) by simp
    show "P grid goal
          (visit_neighbors (hd (sort_key node_f ol)) goal
             (insert (node_pos (hd (sort_key node_f ol))) cl) ns (tl (sort_key node_f ol)))
          (insert (node_pos (hd (sort_key node_f ol))) cl)"
      by (rule "1.IH"[OF l refl refl refl ng refl a(3)])
  qed
qed

lemma search_unreachable:
  "cubic grid \<Longrightarrow> \<not> free_cell grid goal \<Longrightarrow> \<forall>n \<in> set ol. node_pos n \<noteq> goal \<Longrightarrow>
   search grid goal ol cl = Inr []"
proof (induction grid goal ol cl rule: search_induct)
  case (step grid goal ol cl)
  note cub = step.prems(1) and blocked = step.prems(2) and avoid = step.prems(3)
  show ?case
  proof (cases "ol = []")
    case True
    then show ?thesis by (simp add: search_Nil)
  next
    case False
    define cur where "cur = hd (sort_key node_f ol)"
    define ol1 where "ol1 = tl (sort_key node_f ol)"
    define cl1 where "cl1 = insert (node_pos cur) cl"
    have curmem: "cur \<in> set ol" unfolding cur_def by (rule hd_sort_key_mem[OF False])
    then have notgoal: "node_pos cur \<noteq> goal" using avoid by simp
    define ns where "ns = filter (free_cell grid)
        [Vec3 (node_x cur + 1) (node_y cur) (node_z cur),
         Vec3 (node_x cur - 1) (node_y cur) (node_z cur),
         Vec3 (node_x cur) (node_y cur) (node_z cur + 1),
         Vec3 (node_x cur) (node_y cur) (node_z cur - 1)]"
    have gn: "getNeighbors grid (node_x cur) (node_y cur) (node_z cur) = Inr ns"
      unfolding ns_def by (rule getNeighbors_cubic) fact
    have gns: "goal \<notin> set ns" using blocked unfolding ns_def by auto
    have ol1: "\<forall>n \<in> set ol1. node_pos n \<noteq> goal"
      using avoid set_tl_sort_key[of node_f ol] unfolding ol1_def by auto
    have av: "\<forall>n \<in> set (visit_neighbors cur goal cl1 ns ol1). node_pos n \<noteq> goal"
      by (rule visit_neighbors_avoids[OF ol1 gns])
    have rec: "search grid goal (visit_neighbors cur goal cl1 ns ol1) cl1 = Inr []"
      unfolding cur_def ol1_def cl1_def
      by (rule step.IH[OF False notgoal[unfolded cur_def] gn[unfolded cur_def] cub blocked
            av[unfolded cur_def ol1_def cl1_def]])
    show ?thesis
      unfolding search_step[OF False]
      using notgoal gn rec unfolding cur_def ol1_def cl1_def by simp
  qed
qed

lemma search_no_error:
  "cubic grid \<Longrightarrow> \<exists>p. search grid goal ol cl = Inr p"
proof (induction grid goal ol cl rule: search_induct)
  case (step grid goal ol cl)
  show ?case
  proof (cases "ol = []")
    case True
    then show ?thesis by (simp add: search_Nil)
  next
    case False
    show ?thesis
    proof (cases "node_pos (hd (sort_key node_f ol)) = goal")
      case True
      then show ?thesis unfolding search_step[OF False] by simp
    next
      case ng: False
      from getNeighbors_cubic[OF step.prems]
      obtain ns where gn: "getNeighbors grid (node_x (hd (sort_key node_f ol)))
          (node_y (hd (sort_key node_f ol))) (node_z (hd (sort_key node_f ol))) = Inr ns"
        by blast
      from step.IH[OF False ng gn step.prems] show ?thesis
        unfolding search_step[OF False] using ng gn by simp
    qed
  qed
qed

lemma findPath_no_error:
  "cubic grid \<Longrightarrow> \<exists>p. findPath grid sx sy sz ex ey ez = Inr p"
  by (simp add: findPath_def Let_def search_no_error)

lemma findPath_unreachable:
  assumes "cubic grid" "\<not> free_cell grid (Vec3 ex ey ez)"
  shows "findPath grid sx sy sz ex ey ez = Inr []"
proof (cases "sx = ex \<and> sy = ey \<and> sz = ez")
  case True
  then show ?thesis by (simp add: findPath_def)
next
  case False
  then have "\<forall>n \<in> set [Node sx sy sz 0 (heuristic (Vec3 sx sy sz) (Vec3 ex ey ez))
                         (heuristic (Vec3 sx sy sz) (Vec3 ex ey ez)) None].
               node_pos n \<noteq> Vec3 ex ey ez"
    by (auto simp: node_pos_def)
  from search_unreachable[OF assms this] False show ?thesis
    by (simp add: findPath_def Let_def)
qed

lemma cubic_scenario_grid: "cubic scenario_grid"
  by code_simp

lemma length_scenario_grid: "length scenario_grid = 10"
  by code_simp

subsection \<open>C3: the concrete scenario\<close>

lemma scenario_path:
  "findPath scenario_grid 0 5 5 9 5 5 =
     Inr [Vec3 1 5 5, Vec3 2 5 5, Vec3 3 5 5, Vec3 4 5 5, Vec3 4 5 6, Vec3 5 5 6,
          Vec3 6 5 6, Vec3 7 5 6, Vec3 8 5 6, Vec3 9 5 6, Vec3 9 5 5]"
  by code_simp

text \<open>
  C3 as stated fails: on the 10 by 10 by 10 grid whose only occupied cell is (5,5,5), the
  path from (0,5,5) to (9,5,5) has not 9 but 11 waypoints. The planner moves in x and z
  only and the obstacle lies on the straight line, so the detour costs two more steps.
\<close>

theorem scenario_path_length_not_9:
  "(case findPath scenario_grid 0 5 5 9 5 5 of
      Inl e \<Rightarrow> False
    | Inr p \<Rightarrow> length p = 11 \<and> length p \<noteq> 9)"
  by (simp add: scenario_path)

text \<open>
  C3, amended: in that scenario \<open>findPath\<close> returns a path of length 11 that ends at the
  goal and has no waypoint equal to (5,5,5).
\<close>

theorem scenario_path_avoids_obstacle:
  "\<exists>p. findPath scenario_grid 0 5 5 9 5 5 = Inr p \<and> length p = 11 \<and> last p = Vec3 9 5 5 \<and>
       Vec3 5 5 5 \<notin> set p"
  by (simp add: scenario_path)

subsection \<open>C4: coordinates outside the grid\<close>

text \<open>
  C4 as stated fails: \<open>findPath\<close> checks no bounds and signals nothing. From the start
  (-1,0,0), outside a 10 by 10 by 10 empty grid, to (0,0,0) it returns the ordinary path
  [(0,0,0)]; to the goal (3,0,0), outside a 3 by 3 by 3 grid, it returns the empty path.
\<close>

theorem out_of_bounds_not_rejected:
  "findPath (createEmptyGrid 10) (-1) 0 0 0 0 0 = Inr [Vec3 0 0 0] \<and>
   findPath (createEmptyGrid 3) 0 0 0 3 0 0 = Inr []"
proof -
  have a: "findPath (createEmptyGrid 10) (-1) 0 0 0 0 0 = Inr [Vec3 0 0 0]" by code_simp
  have b: "findPath (createEmptyGrid 3) 0 0 0 3 0 0 = Inr []" by code_simp
  from a b show ?thesis by simp
qed

text \<open>
  C4, amended: on every cubic grid \<open>findPath\<close> returns a path for every start and goal,
  inside the bounds or not, and never an error; when the goal lies outside the bounds the
  path is empty, as for an unreachable goal.
\<close>

theorem findPath_out_of_bounds:
  assumes "cubic grid"
  shows "(\<exists>p. findPath grid sx sy sz ex ey ez = Inr p) \<and>
         (Vec3 ex ey ez \<notin> cells grid \<longrightarrow> findPath grid sx sy sz ex ey ez = Inr [])"
  using findPath_no_error[OF assms] findPath_unreachable[OF assms]
  by (auto simp: free_cell_def)

theorem findPath_out_of_bounds_witness:
  "cubic scenario_grid \<and> Vec3 10 5 5 \<notin> cells scenario_grid \<and>
   findPath scenario_grid 0 5 5 10 5 5 = Inr []"
proof -
  have o: "Vec3 10 5 5 \<notin> cells scenario_grid"
    by (simp add: cells_iff length_scenario_grid)
  from findPath_out_of_bounds[OF cubic_scenario_grid, of 0 5 5 10 5 5] o cubic_scenario_grid
  show ?thesis by simp
qed

subsection \<open>C10: an occupied goal\<close>

text \<open>
  C10: on every cubic grid, if the goal cell is inside the bounds and marked occupied,
  \<open>findPath\<close> returns the empty path from every start (in particular from every start
  inside the bounds and different from the goal): occupied cells never enter the open list.
  So \<open>setTarget\<close> on a position whose floored cell is occupied, as the driver calls it with
  the position of a detected box, leaves the robot with an empty path and not moving.
\<close>

theorem occupied_goal_empty_path:
  assumes cub: "cubic grid" and inb: "Vec3 ex ey ez \<in> cells grid"
    and occ: "occupied grid (Vec3 ex ey ez)"
  shows "findPath grid sx sy sz ex ey ez = Inr [] \<and>
         (\<lfloor>x\<rfloor> = ex \<and> \<lfloor>y\<rfloor> = ey \<and> \<lfloor>z\<rfloor> = ez \<longrightarrow>
            (\<exists>r'. setTarget x y z grid r = Inr r' \<and> path r' = [] \<and> \<not> moving r'))"
proof -
  have nf: "\<not> free_cell grid (Vec3 ex ey ez)" using occ by (simp add: free_cell_def)
  have a: "\<And>sx sy sz. findPath grid sx sy sz ex ey ez = Inr []"
    by (rule findPath_unreachable[OF cub nf])
  have b: "\<lfloor>x\<rfloor> = ex \<and> \<lfloor>y\<rfloor> = ey \<and> \<lfloor>z\<rfloor> = ez \<longrightarrow>
            (\<exists>r'. setTarget x y z grid r = Inr r' \<and> path r' = [] \<and> \<not> moving r')"
    using a by (auto simp: setTarget_def calculatePath_def Let_def)
  from a b show ?thesis by blast
qed

theorem occupied_goal_empty_path_witness:
  "cubic scenario_grid \<and> Vec3 5 5 5 \<in> cells scenario_grid \<and>
   occupied scenario_grid (Vec3 5 5 5) \<and>
   findPath scenario_grid 0 5 5 5 5 5 = Inr [] \<and>
   (\<exists>r'. setTarget 5.5 5 5.25 scenario_grid (Robot 0 5 5) = Inr r' \<and> path r' = []
         \<and> \<not> moving r')"
proof -
  have i: "Vec3 5 5 5 \<in> cells scenario_grid" by (simp add: cells_iff length_scenario_grid)
  have o: "occupied scenario_grid (Vec3 5 5 5)" by code_simp
  have f: "\<lfloor>5.5::real\<rfloor> = 5 \<and> \<lfloor>5::real\<rfloor> = 5 \<and> \<lfloor>5.25::real\<rfloor> = 5" by simp
  from occupied_goal_empty_path[OF cubic_scenario_grid i o, of 0 5 5 "5.5" 5 "5.25" "Robot 0 5 5"]
    f i o cubic_scenario_grid
  show ?thesis by blast
qed
subsection \<open>C2: optimal paths on an obstacle-free grid\<close>

lemma length_createEmptyGrid [simp]: "length (createEmptyGrid n) = n"
  by (simp add: createEmptyGrid_def)

lemma cubic_createEmptyGrid: "cubic (createEmptyGrid n)"
  by (auto simp: cubic_def createEmptyGrid_def)

lemma free_cell_createEmptyGrid:
  "free_cell (createEmptyGrid n) c = (c \<in> cells (createEmptyGrid n))"
proof (cases c)
  case (Vec3 x y z)
  show ?thesis
  proof (cases "c \<in> cells (createEmptyGrid n)")
    case True
    then have "nat x < n" "nat y < n" "nat z < n" using Vec3 by (auto simp: cells_iff)
    then have "createEmptyGrid n ! nat x ! nat y ! nat z = 0"
      by (simp add: createEmptyGrid_def)
    then show ?thesis using True Vec3 by (simp add: free_cell_def occupied_def)
  next
    case False
    then show ?thesis by (simp add: free_cell_def)
  qed
qed

lemma length_reconstructPath_loop:
  "length (reconstructPath_loop n acc) = depth n + length acc"
  by (induction n acc rule: reconstructPath_loop.induct) simp_all

lemma length_reconstructPath: "length (reconstructPath n) = depth n"
  by (simp add: reconstructPath_def length_reconstructPath_loop)

lemma heuristic_triangle: "heuristic a c \<le> heuristic a b + heuristic b c"
  by (simp add: heuristic_def)

lemma heuristic_self [simp]: "heuristic a a = 0"
  by (simp add: heuristic_def)

lemma heuristic_nonneg: "0 \<le> heuristic a b"
  by (simp add: heuristic_def)

lemma toward_props:
  assumes "c \<noteq> t" "vy c = vy t" "c \<in> cells G" "t \<in> cells G"
  shows "heuristic (toward c t) t = heuristic c t - 1"
    and "toward c t \<in> cells G"
    and "vy (toward c t) = vy t"
    and "toward c t \<in> set [Vec3 (vx c + 1) (vy c) (vz c), Vec3 (vx c - 1) (vy c) (vz c),
                            Vec3 (vx c) (vy c) (vz c + 1), Vec3 (vx c) (vy c) (vz c - 1)]"
    and "toward c t \<noteq> c"
proof -
  obtain cx cy cz where c: "c = Vec3 cx cy cz" by (cases c)
  obtain tx ty tz where t: "t = Vec3 tx ty tz" by (cases t)
  from assms(1,2) c t have ne: "cx \<noteq> tx \<or> cz \<noteq> tz" by auto
  show "heuristic (toward c t) t = heuristic c t - 1"
    using ne assms(2) by (auto simp: toward_def heuristic_def c t)
  show "toward c t \<in> cells G"
    using ne assms(3,4) by (auto simp: toward_def c t cells_iff)
  show "vy (toward c t) = vy t" using assms(2) by (simp add: toward_def)
  show "toward c t \<in> set [Vec3 (vx c + 1) (vy c) (vz c), Vec3 (vx c - 1) (vy c) (vz c),
                            Vec3 (vx c) (vy c) (vz c + 1), Vec3 (vx c) (vy c) (vz c - 1)]"
    by (simp add: toward_def)
  show "toward c t \<noteq> c" by (simp add: toward_def c)
qed

lemma visit_neighbors_Cons:
  "visit_neighbors cur t cl (c # ns) ol = visit_neighbors cur t cl ns (visit_one cur t cl c ol)"
  by (simp add: visit_one_def Let_def node_pos_eq split: option.splits)

lemma visit_neighbors_foldl:
  "visit_neighbors cur t cl ns ol = foldl (\<lambda>ol c. visit_one cur t cl c ol) ol ns"
  by (induction ns arbitrary: ol) (simp_all only: visit_neighbors.simps(1) visit_neighbors_Cons foldl.simps)

lemma good_node_f_ge:
  "good_node s t G n \<Longrightarrow> heuristic s t \<le> node_f n"
  using heuristic_triangle[of s t "node_pos n"] by (simp add: good_node_def)

lemma relax_first_mem:
  "n \<in> set (relax_first c gs cur ol) \<Longrightarrow>
   n \<in> set ol \<or> (\<exists>m \<in> set ol. node_pos m = c \<and>
      n = Node (node_x m) (node_y m) (node_z m) gs (node_h m) (gs + node_h m) (Some cur))"
  by (induction ol) (auto split: if_splits)

lemma relax_first_keeps:
  "n \<in> set ol \<Longrightarrow> node_pos n \<noteq> c \<Longrightarrow> n \<in> set (relax_first c gs cur ol)"
  by (induction ol) auto

lemma relax_first_hits:
  "c \<in> node_pos ` set ol \<Longrightarrow>
   \<exists>m \<in> set ol. node_pos m = c \<and>
     Node (node_x m) (node_y m) (node_z m) gs (node_h m) (gs + node_h m) (Some cur)
       \<in> set (relax_first c gs cur ol)"
  by (induction ol) auto

lemma find_pos_Some:
  "find (\<lambda>n. node_pos n = c) ol = Some m \<Longrightarrow> m \<in> set ol \<and> node_pos m = c"
  by (auto simp: find_Some_iff)

lemma find_pos_None': "find (\<lambda>n. node_pos n = c) ol = None \<longleftrightarrow> c \<notin> node_pos ` set ol"
  by (auto simp: find_None_iff)

lemma distinct_pos_unique:
  "distinct (map node_pos ol) \<Longrightarrow> n \<in> set ol \<Longrightarrow> m \<in> set ol \<Longrightarrow> node_pos n = node_pos m \<Longrightarrow> n = m"
  by (meson distinct_map inj_onD)

lemma visit_one_ok:
  assumes ok: "open_ok s t G cl ol" and cur: "good_node s t G cur"
    and c: "c \<in> cells G" "vy c = vy t" "heuristic s c \<le> node_g cur + 1"
  shows "open_ok s t G cl (visit_one cur t cl c ol)"
proof (cases "c \<in> cl")
  case True
  then show ?thesis using ok by (simp add: visit_one_def)
next
  case False
  let ?gs = "node_g cur + 1"
  have dep: "int (depth cur) = node_g cur" using cur by (simp add: good_node_def)
  show ?thesis
  proof (cases "find (\<lambda>n. node_pos n = c) ol")
    case None
    let ?new = "Node (vx c) (vy c) (vz c) ?gs (heuristic c t) (?gs + heuristic c t) (Some cur)"
    have pn: "node_pos ?new = c" by (cases c) (simp add: node_pos_def)
    have notin: "c \<notin> node_pos ` set ol" using None by (simp add: find_pos_None')
    have gn: "good_node s t G ?new"
      unfolding good_node_def pn using c dep by simp
    have "open_ok s t G cl (ol @ [?new])"
      using ok notin gn False pn unfolding open_ok_def by auto
    then show ?thesis using False None by (simp add: visit_one_def)
  next
    case (Some m)
    show ?thesis
    proof (cases "?gs < node_g m")
      case True
      have d: "distinct (map node_pos (relax_first c ?gs cur ol))"
        using ok by (simp add: open_ok_def)
      have "\<forall>n \<in> set (relax_first c ?gs cur ol). node_pos n \<notin> cl \<and> good_node s t G n"
      proof
        fix n assume "n \<in> set (relax_first c ?gs cur ol)"
        from relax_first_mem[OF this] show "node_pos n \<notin> cl \<and> good_node s t G n"
        proof
          assume "n \<in> set ol" then show ?thesis using ok by (simp add: open_ok_def)
        next
          assume "\<exists>m \<in> set ol. node_pos m = c \<and>
            n = Node (node_x m) (node_y m) (node_z m) ?gs (node_h m) (?gs + node_h m) (Some cur)"
          then obtain m' where m': "m' \<in> set ol" "node_pos m' = c"
            "n = Node (node_x m') (node_y m') (node_z m') ?gs (node_h m') (?gs + node_h m') (Some cur)"
            by blast
          have gm: "good_node s t G m'" and ncl: "node_pos m' \<notin> cl"
            using ok m'(1) by (simp_all add: open_ok_def)
          have pn: "node_pos n = c" using m'(2,3) by (simp add: node_pos_def)
          have "good_node s t G n"
            using gm c dep m'(2) unfolding good_node_def pn by (simp add: m'(3))
          then show ?thesis using pn False by simp
        qed
      qed
      then have "open_ok s t G cl (relax_first c ?gs cur ol)" using d by (simp add: open_ok_def)
      then show ?thesis using False Some True by (simp add: visit_one_def)
    next
      case F: False
      then show ?thesis using False Some ok by (simp add: visit_one_def)
    qed
  qed
qed

lemma visit_one_keeps:
  assumes ok: "open_ok s t G cl ol" and cur: "good_node s t G cur"
    and c: "heuristic s c \<le> node_g cur + 1"
    and at: "at_D s t ol p"
  shows "at_D s t (visit_one cur t cl c ol) p"
proof -
  from at obtain n where n: "n \<in> set ol" "node_pos n = p" "node_f n = heuristic s t"
    by (auto simp: at_D_def)
  let ?gs = "node_g cur + 1"
  have "n \<in> set (visit_one cur t cl c ol)"
  proof (cases "c \<in> cl")
    case True
    then show ?thesis using n by (simp add: visit_one_def)
  next
    case False
    show ?thesis
    proof (cases "find (\<lambda>n. node_pos n = c) ol")
      case None
      then show ?thesis using False n by (simp add: visit_one_def)
    next
      case (Some m)
      from find_pos_Some[OF Some] have m: "m \<in> set ol" "node_pos m = c" by simp_all
      show ?thesis
      proof (cases "?gs < node_g m")
        case True
        have "node_pos n \<noteq> c"
        proof
          assume "node_pos n = c"
          then have "n = m" using distinct_pos_unique[of ol n m] ok n(1) m
            by (simp add: open_ok_def)
          have gm: "good_node s t G m" using ok m(1) by (simp add: open_ok_def)
          have "heuristic s t \<le> heuristic s c + heuristic c t" by (rule heuristic_triangle)
          also have "\<dots> \<le> ?gs + node_h m" using c gm m(2) by (simp add: good_node_def)
          also have "\<dots> < node_g m + node_h m" using True by simp
          also have "\<dots> = node_f m" using gm by (simp add: good_node_def)
          finally show False using n(3) \<open>n = m\<close> by simp
        qed
        then have "n \<in> set (relax_first c ?gs cur ol)" using n(1) by (rule relax_first_keeps[rotated])
        then show ?thesis using False Some True by (simp add: visit_one_def)
      next
        case F: False
        then show ?thesis using False Some n by (simp add: visit_one_def)
      qed
    qed
  qed
  then show ?thesis using n by (auto simp: at_D_def)
qed

lemma visit_one_reaches:
  assumes ok: "open_ok s t G cl ol" and cur: "good_node s t G cur"
    and c: "heuristic s c \<le> node_g cur + 1" "c \<notin> cl"
    and D: "node_g cur + 1 + heuristic c t = heuristic s t"
  shows "at_D s t (visit_one cur t cl c ol) c"
proof (cases "find (\<lambda>n. node_pos n = c) ol")
  case None
  let ?new = "Node (vx c) (vy c) (vz c) (node_g cur + 1) (heuristic c t)
                (node_g cur + 1 + heuristic c t) (Some cur)"
  have pn: "node_pos ?new = c" by (cases c) (simp add: node_pos_def)
  have "?new \<in> set (visit_one cur t cl c ol)" using None c(2) by (simp add: visit_one_def)
  moreover have "node_f ?new = heuristic s t" using D by simp
  ultimately show ?thesis using pn unfolding at_D_def by blast
next
  case (Some m)
  from find_pos_Some[OF Some] have m: "m \<in> set ol" "node_pos m = c" by simp_all
  have gm: "good_node s t G m" using ok m(1) by (simp add: open_ok_def)
  show ?thesis
  proof (cases "node_g cur + 1 < node_g m")
    case True
    have "c \<in> node_pos ` set ol" using m by force
    from relax_first_hits[OF this, of "node_g cur + 1" cur]
    obtain m' where m': "m' \<in> set ol" "node_pos m' = c"
      "Node (node_x m') (node_y m') (node_z m') (node_g cur + 1) (node_h m')
         (node_g cur + 1 + node_h m') (Some cur) \<in> set (relax_first c (node_g cur + 1) cur ol)"
      by blast
    let ?r = "Node (node_x m') (node_y m') (node_z m') (node_g cur + 1) (node_h m')
         (node_g cur + 1 + node_h m') (Some cur)"
    have gm': "good_node s t G m'" using ok m'(1) by (simp add: open_ok_def)
    have "node_f ?r = heuristic s t" using gm' m'(2) D by (simp add: good_node_def)
    moreover have "node_pos ?r = c" using m'(2) by (simp add: node_pos_def)
    moreover have "?r \<in> set (visit_one cur t cl c ol)"
      using Some True c(2) m'(3) by (simp add: visit_one_def)
    ultimately show ?thesis unfolding at_D_def by blast
  next
    case False
    have "node_f m \<le> heuristic s t" using False gm m(2) D by (simp add: good_node_def)
    then have "node_f m = heuristic s t" using good_node_f_ge[OF gm] by simp
    moreover have "m \<in> set (visit_one cur t cl c ol)"
      using Some False c(2) m(1) by (simp add: visit_one_def)
    ultimately show ?thesis using m(2) unfolding at_D_def by blast
  qed
qed

lemma visit_neighbors_ok:
  assumes cur: "good_node s t G cur"
  shows "open_ok s t G cl ol \<Longrightarrow>
         \<forall>c \<in> set ns. c \<in> cells G \<and> vy c = vy t \<and> heuristic s c \<le> node_g cur + 1 \<Longrightarrow>
         open_ok s t G cl (visit_neighbors cur t cl ns ol)"
proof (induction ns arbitrary: ol)
  case Nil
  then show ?case by simp
next
  case (Cons c ns)
  have "open_ok s t G cl (visit_one cur t cl c ol)"
    using visit_one_ok[OF Cons.prems(1) cur] Cons.prems(2) by simp
  then show ?case using Cons.IH Cons.prems(2) by (simp only: visit_neighbors_Cons) simp
qed

lemma visit_neighbors_keeps:
  assumes cur: "good_node s t G cur"
  shows "open_ok s t G cl ol \<Longrightarrow>
         \<forall>c \<in> set ns. c \<in> cells G \<and> vy c = vy t \<and> heuristic s c \<le> node_g cur + 1 \<Longrightarrow>
         at_D s t ol p \<Longrightarrow> at_D s t (visit_neighbors cur t cl ns ol) p"
proof (induction ns arbitrary: ol)
  case Nil
  then show ?case by simp
next
  case (Cons c ns)
  have c: "c \<in> cells G" "vy c = vy t" "heuristic s c \<le> node_g cur + 1"
    using Cons.prems(2) by simp_all
  have a: "open_ok s t G cl (visit_one cur t cl c ol)"
    by (rule visit_one_ok[OF Cons.prems(1) cur c])
  have b: "at_D s t (visit_one cur t cl c ol) p"
    by (rule visit_one_keeps[OF Cons.prems(1) cur c(3) Cons.prems(3)])
  show ?case using Cons.IH[OF a _ b] Cons.prems(2) by (simp only: visit_neighbors_Cons) simp
qed

lemma visit_neighbors_reaches:
  assumes cur: "good_node s t G cur"
  shows "open_ok s t G cl ol \<Longrightarrow>
         \<forall>c \<in> set ns. c \<in> cells G \<and> vy c = vy t \<and> heuristic s c \<le> node_g cur + 1 \<Longrightarrow>
         m \<in> set ns \<Longrightarrow> m \<notin> cl \<Longrightarrow> node_g cur + 1 + heuristic m t = heuristic s t \<Longrightarrow>
         at_D s t (visit_neighbors cur t cl ns ol) m"
proof (induction ns arbitrary: ol)
  case Nil
  then show ?case by simp
next
  case (Cons c ns)
  have c: "c \<in> cells G" "vy c = vy t" "heuristic s c \<le> node_g cur + 1"
    using Cons.prems(2) by simp_all
  have rest: "\<forall>c \<in> set ns. c \<in> cells G \<and> vy c = vy t \<and> heuristic s c \<le> node_g cur + 1"
    using Cons.prems(2) by simp
  have a: "open_ok s t G cl (visit_one cur t cl c ol)"
    by (rule visit_one_ok[OF Cons.prems(1) cur c])
  show ?case
  proof (cases "m = c")
    case True
    have "at_D s t (visit_one cur t cl c ol) c"
      using visit_one_reaches[OF Cons.prems(1) cur c(3)] Cons.prems(4,5) True by simp
    then have "at_D s t (visit_neighbors cur t cl ns (visit_one cur t cl c ol)) c"
      by (rule visit_neighbors_keeps[OF cur a rest])
    then show ?thesis using True by (simp only: visit_neighbors_Cons)
  next
    case False
    then have "m \<in> set ns" using Cons.prems(3) by simp
    from Cons.IH[OF a rest this Cons.prems(4,5)] show ?thesis
      by (simp only: visit_neighbors_Cons)
  qed
qed


lemma distinct_map_insort_key:
  "distinct (map g (insort_key k x xs)) = (g x \<notin> g ` set xs \<and> distinct (map g xs))"
  by (induction xs) (auto simp: set_insort_key)

lemma distinct_map_sort_key: "distinct (map g (sort_key k xs)) = distinct (map g xs)"
  by (induction xs) (simp_all add: distinct_map_insort_key)

lemma sort_key_hd_tl:
  assumes "ol \<noteq> []"
  shows "sort_key k ol = hd (sort_key k ol) # tl (sort_key k ol)"
    and "set ol = insert (hd (sort_key k ol)) (set (tl (sort_key k ol)))"
    and "\<forall>n \<in> set ol. k (hd (sort_key k ol)) \<le> k n"
proof -
  have ne: "sort_key k ol \<noteq> []" using assms by (metis length_0_conv length_sort)
  then show c: "sort_key k ol = hd (sort_key k ol) # tl (sort_key k ol)" by simp
  then show s: "set ol = insert (hd (sort_key k ol)) (set (tl (sort_key k ol)))"
    by (metis list.simps(15) set_sort)
  have "sorted (map k (sort_key k ol))" by (rule sorted_sort_key)
  then have "sorted (k (hd (sort_key k ol)) # map k (tl (sort_key k ol)))"
    by (subst (asm) c) simp
  then have "\<forall>n \<in> set (tl (sort_key k ol)). k (hd (sort_key k ol)) \<le> k n" by simp
  then show "\<forall>n \<in> set ol. k (hd (sort_key k ol)) \<le> k n" by (subst s) simp
qed

lemma closed_reaches_open:
  assumes ok: "closed_ok s t G cl ol" and t: "t \<in> cells G"
  shows "c \<in> cl \<Longrightarrow> \<exists>p. at_D s t ol p"
proof (induction k \<equiv> "nat (heuristic c t)" arbitrary: c rule: less_induct)
  case less
  have c: "c \<in> cells G" "vy c = vy t" "toward c t \<in> cl \<or> at_D s t ol (toward c t)"
    using ok less.prems by (auto simp: closed_ok_def)
  have ne: "c \<noteq> t" using ok less.prems by (auto simp: closed_ok_def)
  show ?case
  proof (cases "at_D s t ol (toward c t)")
    case True
    then show ?thesis by blast
  next
    case False
    then have m: "toward c t \<in> cl" using c(3) by simp
    have h: "heuristic (toward c t) t = heuristic c t - 1"
      by (rule toward_props(1)[OF ne c(2) c(1) t])
    have "0 < heuristic c t" using ne c(2) by (cases c; cases t) (auto simp: heuristic_def)
    then have "nat (heuristic (toward c t) t) < nat (heuristic c t)" using h by simp
    from less.hyps[OF this m] show ?thesis .
  qed
qed

lemma frontier:
  assumes ok: "closed_ok s t G cl ol" and t: "t \<in> cells G"
  shows "\<exists>n \<in> set ol. node_f n = heuristic s t"
proof -
  have "\<exists>p. at_D s t ol p"
  proof (cases "s \<in> cl")
    case True
    then show ?thesis by (rule closed_reaches_open[OF ok t])
  next
    case False
    then show ?thesis using ok by (auto simp: closed_ok_def)
  qed
  then show ?thesis by (auto simp: at_D_def)
qed

lemma search_finds:
  "G = createEmptyGrid n \<Longrightarrow> t \<in> cells G \<Longrightarrow> open_ok s t G cl ol \<Longrightarrow> closed_ok s t G cl ol \<Longrightarrow>
   \<exists>p. search G t ol cl = Inr p \<and> int (length p) = heuristic s t"
proof (induction G t ol cl rule: search_induct)
  case (step G t ol cl)
  note G = step.prems(1) and tG = step.prems(2) and ook = step.prems(3) and cok = step.prems(4)
  from frontier[OF cok tG] obtain nD where nD: "nD \<in> set ol" "node_f nD = heuristic s t" by blast
  then have ne: "ol \<noteq> []" by auto
  define cur where "cur = hd (sort_key node_f ol)"
  define ol1 where "ol1 = tl (sort_key node_f ol)"
  define cl1 where "cl1 = insert (node_pos cur) cl"
  note srt = sort_key_hd_tl[OF ne, of node_f, folded cur_def ol1_def]
  have curmem: "cur \<in> set ol" using srt(2) by simp
  have gcur: "good_node s t G cur" and curcl: "node_pos cur \<notin> cl"
    using ook curmem by (simp_all add: open_ok_def)
  have "node_f cur \<le> node_f nD" using srt(3) nD(1) by simp
  then have fcur: "node_f cur = heuristic s t" using nD(2) good_node_f_ge[OF gcur] by simp
  show ?case
  proof (cases "node_pos cur = t")
    case True
    have "node_g cur = heuristic s t" using gcur fcur True by (simp add: good_node_def)
    then have "int (length (reconstructPath cur)) = heuristic s t"
      using gcur by (simp add: length_reconstructPath good_node_def)
    then show ?thesis unfolding search_step[OF ne] cur_def[symmetric] using True by simp
  next
    case False
    define ns where "ns = filter (free_cell G)
        [Vec3 (node_x cur + 1) (node_y cur) (node_z cur),
         Vec3 (node_x cur - 1) (node_y cur) (node_z cur),
         Vec3 (node_x cur) (node_y cur) (node_z cur + 1),
         Vec3 (node_x cur) (node_y cur) (node_z cur - 1)]"
    have cub: "cubic G" unfolding G by (rule cubic_createEmptyGrid)
    have gn: "getNeighbors G (node_x cur) (node_y cur) (node_z cur) = Inr ns"
      unfolding ns_def by (rule getNeighbors_cubic[OF cub])
    have pc: "node_pos cur = Vec3 (node_x cur) (node_y cur) (node_z cur)"
      by (simp add: node_pos_def)
    have nsok: "\<forall>c \<in> set ns. c \<in> cells G \<and> vy c = vy t \<and> heuristic s c \<le> node_g cur + 1"
    proof
      fix c assume c: "c \<in> set ns"
      then have fcc: "free_cell G c"
        and c4: "c = Vec3 (node_x cur + 1) (node_y cur) (node_z cur) \<or>
                 c = Vec3 (node_x cur - 1) (node_y cur) (node_z cur) \<or>
                 c = Vec3 (node_x cur) (node_y cur) (node_z cur + 1) \<or>
                 c = Vec3 (node_x cur) (node_y cur) (node_z cur - 1)"
        unfolding ns_def set_filter by simp_all
      have fc: "c \<in> cells G" using fcc by (simp add: free_cell_def)
      have adj: "vy c = node_y cur \<and> heuristic (node_pos cur) c \<le> 1"
        using c4 by (auto simp: heuristic_def node_pos_def)
      have "heuristic s c \<le> heuristic s (node_pos cur) + heuristic (node_pos cur) c"
        by (rule heuristic_triangle)
      then have "heuristic s c \<le> node_g cur + 1" using adj gcur by (simp add: good_node_def)
      then show "c \<in> cells G \<and> vy c = vy t \<and> heuristic s c \<le> node_g cur + 1"
        using fc adj gcur by (simp add: good_node_def)
    qed
    have dist: "distinct (map node_pos (cur # ol1))"
      using ook srt(1) distinct_map_sort_key[of node_pos node_f ol] by (simp add: open_ok_def)
    have d1: "distinct (map node_pos ol1)" and nc: "node_pos cur \<notin> node_pos ` set ol1"
      using dist by simp_all
    have "\<forall>n \<in> set ol1. node_pos n \<notin> cl1 \<and> good_node s t G n"
    proof
      fix m assume m: "m \<in> set ol1"
      then have "m \<in> set ol" using srt(2) by simp
      then have "node_pos m \<notin> cl" "good_node s t G m" using ook by (simp_all add: open_ok_def)
      moreover have "node_pos m \<noteq> node_pos cur" using nc m by (metis imageI)
      ultimately show "node_pos m \<notin> cl1 \<and> good_node s t G m" by (simp add: cl1_def)
    qed
    then have ook1: "open_ok s t G cl1 ol1" using d1 by (simp add: open_ok_def)
    define ol2 where "ol2 = visit_neighbors cur t cl1 ns ol1"
    have ook2: "open_ok s t G cl1 ol2"
      unfolding ol2_def by (rule visit_neighbors_ok[OF gcur ook1 nsok])
    have keep: "\<And>p. at_D s t ol p \<Longrightarrow> p \<in> cl1 \<or> at_D s t ol2 p"
    proof -
      fix p assume "at_D s t ol p"
      then obtain m where m: "m \<in> set ol" "node_pos m = p" "node_f m = heuristic s t"
        by (auto simp: at_D_def)
      show "p \<in> cl1 \<or> at_D s t ol2 p"
      proof (cases "m = cur")
        case True
        then show ?thesis using m(2) by (simp add: cl1_def)
      next
        case False
        then have "m \<in> set ol1" using m(1) srt(2) by simp
        then have "at_D s t ol1 p" using m(2,3) by (auto simp: at_D_def)
        then have "at_D s t ol2 p"
          unfolding ol2_def by (rule visit_neighbors_keeps[OF gcur ook1 nsok])
        then show ?thesis by simp
      qed
    qed
    have curstep: "toward (node_pos cur) t \<in> cl1 \<or> at_D s t ol2 (toward (node_pos cur) t)"
    proof (cases "toward (node_pos cur) t \<in> cl1")
      case True
      then show ?thesis by simp
    next
      case ncl: False
      have cc: "node_pos cur \<in> cells G" using gcur by (simp add: good_node_def)
      have "node_y cur = vy t" using gcur by (simp add: good_node_def)
      then have cy: "vy (node_pos cur) = vy t" by (simp add: node_pos_def)
      note tp = toward_props[OF False cy cc tG]
      have "free_cell G (toward (node_pos cur) t)"
        unfolding G free_cell_createEmptyGrid using tp(2) G by simp
      moreover have "toward (node_pos cur) t \<in> set
        [Vec3 (node_x cur + 1) (node_y cur) (node_z cur),
         Vec3 (node_x cur - 1) (node_y cur) (node_z cur),
         Vec3 (node_x cur) (node_y cur) (node_z cur + 1),
         Vec3 (node_x cur) (node_y cur) (node_z cur - 1)]"
        using tp(4) by (simp add: node_pos_def)
      ultimately have mem: "toward (node_pos cur) t \<in> set ns"
        unfolding ns_def set_filter by simp
      have "node_g cur + 1 + heuristic (toward (node_pos cur) t) t = heuristic s t"
        using tp(1) gcur fcur by (simp add: good_node_def)
      from visit_neighbors_reaches[OF gcur ook1 nsok mem ncl this]
      show ?thesis by (simp add: ol2_def)
    qed
    have cok2: "closed_ok s t G cl1 ol2"
      unfolding closed_ok_def
    proof (intro conjI ballI)
      show "t \<notin> cl1" using cok False by (simp add: closed_ok_def cl1_def)
    next
      fix c assume c: "c \<in> cl1"
      show "c \<in> cells G"
        using c cok gcur by (auto simp: cl1_def closed_ok_def good_node_def)
      show "vy c = vy t"
        using c cok gcur by (auto simp: cl1_def closed_ok_def good_node_def node_pos_def)
      show "toward c t \<in> cl1 \<or> at_D s t ol2 (toward c t)"
      proof (cases "c = node_pos cur")
        case True
        then show ?thesis using curstep by simp
      next
        case False
        then have "c \<in> cl" using c by (simp add: cl1_def)
        then have "toward c t \<in> cl \<or> at_D s t ol (toward c t)"
          using cok by (simp add: closed_ok_def)
        then show ?thesis using keep[of "toward c t"] by (auto simp: cl1_def)
      qed
    next
      have "s \<in> cl \<or> at_D s t ol s" using cok by (simp add: closed_ok_def)
      then show "s \<in> cl1 \<or> at_D s t ol2 s" using keep[of s] by (auto simp: cl1_def)
    qed
    have "\<exists>p. search G t ol2 cl1 = Inr p \<and> int (length p) = heuristic s t"
      unfolding ol2_def cl1_def cur_def ol1_def
      by (rule step.IH[OF ne False[unfolded cur_def] gn[unfolded cur_def] G tG
            ook2[unfolded ol2_def cl1_def cur_def ol1_def]
            cok2[unfolded ol2_def cl1_def cur_def ol1_def]])
    then show ?thesis
      unfolding search_step[OF ne] using False gn
      unfolding ol2_def cl1_def cur_def ol1_def by simp
  qed
qed

text \<open>Every path the search returns is a route from the start, ending at the goal.\<close>

lemma reconstructPath_loop_append:
  "reconstructPath_loop n (a @ b) = reconstructPath_loop n a @ b"
  by (induction n a arbitrary: b rule: reconstructPath_loop.induct) simp_all

lemma reconstructPath_child:
  "reconstructPath (Node x y z g h f (Some p)) = reconstructPath p @ [Vec3 x y z]"
  unfolding reconstructPath_def
  using reconstructPath_loop_append[of p "[]" "[Vec3 x y z]"] by simp

lemma is_route_snoc:
  "is_route G c (ds @ [d]) =
     (is_route G c ds \<and> unit_step (last (c # ds)) d \<and> free_cell G d)"
  by (induction ds arbitrary: c) auto

lemma routed_child:
  assumes "routed s G cur" "unit_step (node_pos cur) c" "free_cell G c"
    and "c = Vec3 x y z"
  shows "routed s G (Node x y z g h f (Some cur))"
  using assms
  by (simp add: routed_def reconstructPath_child is_route_snoc node_pos_def)

lemma visit_one_routed:
  assumes ol: "\<forall>n \<in> set ol. routed s G n" and cur: "routed s G cur"
    and c: "unit_step (node_pos cur) c" "free_cell G c"
  shows "\<forall>n \<in> set (visit_one cur t cl c ol). routed s G n"
proof
  fix n assume n: "n \<in> set (visit_one cur t cl c ol)"
  let ?gs = "node_g cur + 1"
  let ?new = "Node (vx c) (vy c) (vz c) ?gs (heuristic c t) (?gs + heuristic c t) (Some cur)"
  have "n \<in> set ol \<or> n = ?new \<or>
        (\<exists>m \<in> set ol. node_pos m = c \<and>
           n = Node (node_x m) (node_y m) (node_z m) ?gs (node_h m) (?gs + node_h m) (Some cur))"
    using n relax_first_mem[of n c ?gs cur ol]
    by (auto simp: visit_one_def split: if_splits option.splits)
  then show "routed s G n"
  proof (elim disjE bexE conjE)
    assume "n \<in> set ol" then show ?thesis using ol by simp
  next
    assume "n = ?new"
    moreover have "routed s G ?new"
      by (rule routed_child[OF cur c]) simp
    ultimately show ?thesis by simp
  next
    fix m assume m: "node_pos m = c"
      "n = Node (node_x m) (node_y m) (node_z m) ?gs (node_h m) (?gs + node_h m) (Some cur)"
    have "c = Vec3 (node_x m) (node_y m) (node_z m)" using m(1) by (simp add: node_pos_def)
    from routed_child[OF cur c this] show ?thesis using m(2) by simp
  qed
qed

lemma visit_neighbors_routed:
  assumes cur: "routed s G cur"
  shows "\<forall>n \<in> set ol. routed s G n \<Longrightarrow>
         \<forall>c \<in> set ns. unit_step (node_pos cur) c \<and> free_cell G c \<Longrightarrow>
         \<forall>n \<in> set (visit_neighbors cur t cl ns ol). routed s G n"
proof (induction ns arbitrary: ol)
  case Nil
  then show ?case by simp
next
  case (Cons c ns)
  have c: "unit_step (node_pos cur) c" "free_cell G c" using Cons.prems(2) by simp_all
  have "\<forall>n \<in> set (visit_one cur t cl c ol). routed s G n"
    by (rule visit_one_routed[OF Cons.prems(1) cur c])
  then show ?case using Cons.IH Cons.prems(2) by (simp only: visit_neighbors_Cons) simp
qed

lemma search_routed:
  "cubic G \<Longrightarrow> \<forall>n \<in> set ol. routed s G n \<Longrightarrow> search G t ol cl = Inr p \<Longrightarrow>
   is_route G s p \<and> (p = [] \<or> last (s # p) = t)"
proof (induction G t ol cl rule: search_induct)
  case (step G t ol cl)
  note cub = step.prems(1) and rt = step.prems(2) and res = step.prems(3)
  show ?case
  proof (cases "ol = []")
    case True
    then show ?thesis using res by (simp add: search_Nil)
  next
    case ne: False
    define cur where "cur = hd (sort_key node_f ol)"
    define ol1 where "ol1 = tl (sort_key node_f ol)"
    define cl1 where "cl1 = insert (node_pos cur) cl"
    have curmem: "cur \<in> set ol" unfolding cur_def by (rule hd_sort_key_mem[OF ne])
    then have rcur: "routed s G cur" using rt by simp
    show ?thesis
    proof (cases "node_pos cur = t")
      case True
      then have "p = reconstructPath cur"
        using res unfolding search_step[OF ne] cur_def by simp
      then show ?thesis using rcur True by (simp add: routed_def)
    next
      case False
      define ns where "ns = filter (free_cell G)
          [Vec3 (node_x cur + 1) (node_y cur) (node_z cur),
           Vec3 (node_x cur - 1) (node_y cur) (node_z cur),
           Vec3 (node_x cur) (node_y cur) (node_z cur + 1),
           Vec3 (node_x cur) (node_y cur) (node_z cur - 1)]"
      have gn: "getNeighbors G (node_x cur) (node_y cur) (node_z cur) = Inr ns"
        unfolding ns_def by (rule getNeighbors_cubic[OF cub])
      have nsok: "\<forall>c \<in> set ns. unit_step (node_pos cur) c \<and> free_cell G c"
      proof
        fix c assume "c \<in> set ns"
        then have fcc: "free_cell G c"
          and c4: "c = Vec3 (node_x cur + 1) (node_y cur) (node_z cur) \<or>
                   c = Vec3 (node_x cur - 1) (node_y cur) (node_z cur) \<or>
                   c = Vec3 (node_x cur) (node_y cur) (node_z cur + 1) \<or>
                   c = Vec3 (node_x cur) (node_y cur) (node_z cur - 1)"
          unfolding ns_def set_filter by simp_all
        have "unit_step (node_pos cur) c" using c4 by (auto simp: unit_step_def node_pos_def)
        then show "unit_step (node_pos cur) c \<and> free_cell G c" using fcc by simp
      qed
      have r1: "\<forall>n \<in> set ol1. routed s G n"
        using rt set_tl_sort_key[of node_f ol] unfolding ol1_def by auto
      have r2: "\<forall>n \<in> set (visit_neighbors cur t cl1 ns ol1). routed s G n"
        by (rule visit_neighbors_routed[OF rcur r1 nsok])
      have rec: "search G t (visit_neighbors cur t cl1 ns ol1) cl1 = Inr p"
        using res False gn unfolding search_step[OF ne] cur_def ol1_def cl1_def by simp
      show ?thesis
        by (rule step.IH[OF ne False[unfolded cur_def] gn[unfolded cur_def] cub
              r2[unfolded cur_def ol1_def cl1_def] rec[unfolded cur_def ol1_def cl1_def]])
    qed
  qed
qed

text \<open>No route is shorter than the Manhattan distance between its ends.\<close>

lemma route_length_ge:
  "is_route G c q \<Longrightarrow> heuristic c (last (c # q)) \<le> int (length q)"
proof (induction q arbitrary: c)
  case Nil
  then show ?case by simp
next
  case (Cons d ds)
  have "unit_step c d" using Cons.prems by simp
  then have "heuristic c d = 1" unfolding unit_step_def heuristic_def by arith
  moreover have "heuristic d (last (d # ds)) \<le> int (length ds)"
    using Cons.IH Cons.prems by simp
  moreover have "heuristic c (last (d # ds)) \<le> heuristic c d + heuristic d (last (d # ds))"
    by (rule heuristic_triangle)
  ultimately show ?case by simp
qed

text \<open>
  C2: on the obstacle-free grid of any size \<open>n\<close>, for every start and goal inside the
  bounds and with the same y coordinate, \<open>findPath\<close> returns a path that is a route of
  unit steps in x or z through cells of the grid, from the start (not listed) to the goal
  (its last waypoint), whose number of waypoints is the Manhattan distance between start
  and goal; no route from the start to the goal is shorter.
\<close>

theorem findPath_free_grid_manhattan:
  assumes "0 \<le> sx" "sx < int n" "0 \<le> y" "y < int n" "0 \<le> sz" "sz < int n"
    and "0 \<le> ex" "ex < int n" "0 \<le> ez" "ez < int n"
  shows "\<exists>p. findPath (createEmptyGrid n) sx y sz ex y ez = Inr p \<and>
             int (length p) = \<bar>sx - ex\<bar> + \<bar>sz - ez\<bar> \<and>
             is_route (createEmptyGrid n) (Vec3 sx y sz) p \<and>
             last (Vec3 sx y sz # p) = Vec3 ex y ez \<and>
             (\<forall>q. is_route (createEmptyGrid n) (Vec3 sx y sz) q \<and>
                  last (Vec3 sx y sz # q) = Vec3 ex y ez \<longrightarrow> length p \<le> length q)"
proof -
  let ?G = "createEmptyGrid n"
  let ?s = "Vec3 sx y sz" and ?t = "Vec3 ex y ez"
  have D: "heuristic ?s ?t = \<bar>sx - ex\<bar> + \<bar>sz - ez\<bar>" by (simp add: heuristic_def)
  have opt: "\<And>(p::int vec3 list) q. int (length p) = heuristic ?s ?t \<Longrightarrow> is_route ?G ?s q \<Longrightarrow>
      last (?s # q) = ?t \<Longrightarrow> length p \<le> length q"
  proof -
    fix p q :: "int vec3 list"
    assume a: "int (length p) = heuristic ?s ?t" "is_route ?G ?s q" "last (?s # q) = ?t"
    from route_length_ge[OF a(2)] a(3) have "heuristic ?s ?t \<le> int (length q)" by simp
    then show "length p \<le> length q" using a(1) by simp
  qed
  show ?thesis
  proof (cases "sx = ex \<and> sz = ez")
    case True
    then have "findPath ?G sx y sz ex y ez = Inr []" by (simp add: findPath_def)
    moreover have "int (length ([]::int vec3 list)) = heuristic ?s ?t" using True by simp
    ultimately show ?thesis using True opt[of "[]"] D by (intro exI[of _ "[]"]) simp
  next
    case False
    let ?n0 = "Node sx y sz 0 (heuristic ?s ?t) (heuristic ?s ?t) None"
    have sG: "?s \<in> cells ?G" and tG: "?t \<in> cells ?G" using assms by (simp_all add: cells_iff)
    have g0: "good_node ?s ?t ?G ?n0" using sG by (simp add: good_node_def node_pos_def)
    have ook: "open_ok ?s ?t ?G {} [?n0]" using g0 by (simp add: open_ok_def)
    have "at_D ?s ?t [?n0] ?s" by (simp add: at_D_def node_pos_def)
    then have cok: "closed_ok ?s ?t ?G {} [?n0]" by (simp add: closed_ok_def)
    from search_finds[OF refl tG ook cok]
    obtain p where p: "search ?G ?t [?n0] {} = Inr p" "int (length p) = heuristic ?s ?t"
      by blast
    have r0: "\<forall>m \<in> set [?n0]. routed ?s ?G m"
      by (simp add: routed_def reconstructPath_def node_pos_def)
    from search_routed[OF cubic_createEmptyGrid r0 p(1)]
    have rt: "is_route ?G ?s p" and en: "p = [] \<or> last (?s # p) = ?t" by simp_all
    have "0 < heuristic ?s ?t" using False by (auto simp: heuristic_def)
    then have "p \<noteq> []" using p(2) by auto
    then have en': "last (?s # p) = ?t" using en by simp
    have fp: "findPath ?G sx y sz ex y ez = Inr p"
      using p(1) False by (auto simp: findPath_def Let_def)
    show ?thesis using fp p(2) rt en' opt[OF p(2)] D by (intro exI[of _ p]) simp
  qed
qed

theorem findPath_free_grid_manhattan_witness:
  "(0::int) \<le> 1 \<and> (1::int) < int 10 \<and> (0::int) \<le> 8 \<and> (8::int) < int 10 \<and>
   (\<exists>p. findPath (createEmptyGrid 10) 1 0 1 8 0 8 = Inr p \<and> int (length p) = 14 \<and>
        is_route (createEmptyGrid 10) (Vec3 1 0 1) p \<and> last (Vec3 1 0 1 # p) = Vec3 8 0 8)"
proof -
  from findPath_free_grid_manhattan[of 1 10 0 1 8 8]
  obtain p where "findPath (createEmptyGrid 10) 1 0 1 8 0 8 = Inr p"
    "int (length p) = \<bar>1 - 8\<bar> + \<bar>1 - 8\<bar>"
    "is_route (createEmptyGrid 10) (Vec3 1 0 1) p" "last (Vec3 1 0 1 # p) = Vec3 8 0 8"
    by auto
  then show ?thesis by (intro conjI exI[of _ p]) simp_all
qed

end
